theory Spec2Isabelle
  imports Complex_Main "HOL-Library.Word"
begin

section \<open>PrefixSumComputer: a lazily cached prefix-sum index\<close>

text \<open>
  The class \<open>PrefixSumComputer\<close> keeps a \<open>Uint32Array\<close> of values, a \<open>Uint32Array\<close> of
  cached inclusive prefix sums and, in a one-cell \<open>Int32Array\<close>, the largest index up to
  which the cache can be trusted.

  Conventions of the embedding.
  \<^item> An element of a \<open>Uint32Array\<close> is a \<open>32 word\<close>; the array is a list of them.
  \<^item> A JavaScript \<open>number\<close> that is used as an index, a count or a weight is an \<open>int\<close>;
    JavaScript arithmetic on such numbers is exact (they stay far below \<open>2^53\<close>), so \<open>+\<close> and
    \<open>-\<close> on \<open>int\<close> are the source's \<open>+\<close> and \<open>-\<close>. The reduction modulo \<open>2^32\<close> happens
    where the source stores a number into a \<open>Uint32Array\<close>, and only there.
  \<^item> A read that can yield \<open>undefined\<close> (a typed array indexed out of range), and any number
    computed from it (\<open>NaN\<close>), is an \<open>int option\<close> with \<open>None\<close> for \<open>undefined\<close>/\<open>NaN\<close>.
  \<^item> The position given to \<open>getIndexOf\<close> may be fractional: it is a \<open>real\<close>, floored as the
    source does.
  \<^item> The cell of the \<open>Int32Array\<close> is an \<open>int\<close>: every number the class stores there lies
    between \<open>-1\<close> and the last index of the value array.
  \<^item> A \<open>RangeError\<close> thrown by \<open>TypedArray.prototype.set\<close> is a value of type \<open>error\<close>; a
    method that can throw returns \<open>error + bool\<close> together with the state it leaves behind.
\<close>

type_synonym uint32 = "32 word"

datatype error = RangeError

subsection \<open>Typed arrays\<close>

definition new_Uint32Array :: "nat \<Rightarrow> uint32 list" where
  \<comment> \<open>\<open>new Uint32Array(n)\<close>: \<open>n\<close> zeros\<close>
  "new_Uint32Array n = replicate n 0"

definition ta_get :: "uint32 list \<Rightarrow> int \<Rightarrow> int option" where
  \<comment> \<open>\<open>a[i]\<close>: \<open>undefined\<close> out of range\<close>
  "ta_get a i = (if 0 \<le> i \<and> i < int (length a) then Some (uint (a ! nat i)) else None)"

fun to_element :: "int option \<Rightarrow> uint32" where
  \<comment> \<open>the conversion applied on a store: \<open>undefined\<close> and \<open>NaN\<close> become 0, a number is
      reduced modulo \<open>2^32\<close>\<close>
  "to_element None = 0"
| "to_element (Some n) = word_of_int n"

definition ta_put :: "uint32 list \<Rightarrow> int \<Rightarrow> int option \<Rightarrow> uint32 list" where
  \<comment> \<open>\<open>a[i] = v\<close>: a store out of range is ignored, the array never grows\<close>
  "ta_put a i v = (if 0 \<le> i \<and> i < int (length a) then a[nat i := to_element v] else a)"

definition rel_index :: "nat \<Rightarrow> int \<Rightarrow> nat" where
  \<comment> \<open>a begin or end argument of \<open>subarray\<close>: negative counts from the end, then clamped\<close>
  "rel_index len i = (if i < 0 then nat (max (int len + i) 0) else min (nat i) len)"

definition subarray :: "uint32 list \<Rightarrow> int \<Rightarrow> int \<Rightarrow> uint32 list" where
  \<comment> \<open>\<open>a.subarray(begin, end)\<close>\<close>
  "subarray a b e = (let b' = rel_index (length a) b; e' = rel_index (length a) e
                     in take (e' - b') (drop b' a))"

definition subarray_from :: "uint32 list \<Rightarrow> int \<Rightarrow> uint32 list" where
  \<comment> \<open>\<open>a.subarray(begin)\<close>: up to the end\<close>
  "subarray_from a b = drop (rel_index (length a) b) a"

definition ta_set :: "uint32 list \<Rightarrow> uint32 list \<Rightarrow> int \<Rightarrow> error + uint32 list" where
  \<comment> \<open>\<open>target.set(source, offset)\<close>: throws a \<open>RangeError\<close> when the source does not fit\<close>
  "ta_set target source offset =
     (if offset < 0 \<or> int (length source) + offset > int (length target) then Inl RangeError
      else Inr (take (nat offset) target @ source
                @ drop (nat offset + length source) target))"

fun num_add :: "int option \<Rightarrow> int option \<Rightarrow> int option" where
  \<comment> \<open>\<open>x + y\<close> on numbers: \<open>NaN\<close> as soon as one side is \<open>undefined\<close>\<close>
  "num_add (Some x) (Some y) = Some (x + y)"
| "num_add _ _ = None"

definition toUint32 :: "int \<Rightarrow> int" where
  \<comment> \<open>Modelled from the spec: \<open>toUint32\<close> is imported from \<open>vs/base/common/uint\<close>, which is
      not among the source files. The spec says that values are coerced into the unsigned
      32-bit range on input; the model clamps, and is the identity on that range.\<close>
  "toUint32 v = (if v < 0 then 0 else if v > 4294967295 then 4294967295 else v)"

subsection \<open>The class\<close>

record PrefixSumIndexOfResult =
  index :: int
  remainder :: "int option"

record PrefixSumComputer =
  values_arr :: "uint32 list"
  prefixSum :: "uint32 list"
  prefixSumValidIndex :: int

definition new_PrefixSumComputer :: "uint32 list \<Rightarrow> PrefixSumComputer" where
  \<comment> \<open>the constructor\<close>
  "new_PrefixSumComputer vs =
     \<lparr>values_arr = vs, prefixSum = new_Uint32Array (length vs), prefixSumValidIndex = -1\<rparr>"

definition insertValues ::
  "int \<Rightarrow> uint32 list \<Rightarrow> PrefixSumComputer \<Rightarrow> (error + bool) \<times> PrefixSumComputer" where
  "insertValues insertIndex0 insValues s =
     (let insertIndex = toUint32 insertIndex0;
          oldValues = values_arr s;
          oldPrefixSum = prefixSum s;
          insertValuesLen = length insValues
      in if insertValuesLen = 0 then (Inr False, s)
         else
           let v0 = new_Uint32Array (length oldValues + insertValuesLen) in
           case ta_set v0 (subarray oldValues 0 insertIndex) 0 of
             Inl e \<Rightarrow> (Inl e, s\<lparr>values_arr := v0\<rparr>)
           | Inr v1 \<Rightarrow>
           (case ta_set v1 (subarray_from oldValues insertIndex)
                   (insertIndex + int insertValuesLen) of
             Inl e \<Rightarrow> (Inl e, s\<lparr>values_arr := v1\<rparr>)
           | Inr v2 \<Rightarrow>
           (case ta_set v2 insValues insertIndex of
             Inl e \<Rightarrow> (Inl e, s\<lparr>values_arr := v2\<rparr>)
           | Inr v3 \<Rightarrow>
             let vi = (if insertIndex - 1 < prefixSumValidIndex s then insertIndex - 1
                       else prefixSumValidIndex s);
                 p0 = new_Uint32Array (length v3);
                 s1 = s\<lparr>values_arr := v3, prefixSum := p0, prefixSumValidIndex := vi\<rparr>
             in if vi \<ge> 0 then
                  (case ta_set p0 (subarray oldPrefixSum 0 (vi + 1)) 0 of
                     Inl e \<Rightarrow> (Inl e, s1)
                   | Inr p1 \<Rightarrow> (Inr True, s1\<lparr>prefixSum := p1\<rparr>))
                else (Inr True, s1))))"

definition changeValue :: "int \<Rightarrow> int \<Rightarrow> PrefixSumComputer \<Rightarrow> bool \<times> PrefixSumComputer" where
  "changeValue index0 value0 s =
     (let idx = toUint32 index0;
          val = toUint32 value0
      in if ta_get (values_arr s) idx = Some val then (False, s)
         else
           let s1 = s\<lparr>values_arr := ta_put (values_arr s) idx (Some val)\<rparr>
           in if idx - 1 < prefixSumValidIndex s1
              then (True, s1\<lparr>prefixSumValidIndex := idx - 1\<rparr>)
              else (True, s1))"

definition removeValues ::
  "int \<Rightarrow> int \<Rightarrow> PrefixSumComputer \<Rightarrow> (error + bool) \<times> PrefixSumComputer" where
  "removeValues startIndex0 cnt0 s =
     (let startIndex = toUint32 startIndex0;
          cnt = toUint32 cnt0;
          oldValues = values_arr s;
          oldPrefixSum = prefixSum s
      in if startIndex \<ge> int (length oldValues) then (Inr False, s)
         else
           let maxCnt = int (length oldValues) - startIndex;
               cnt = (if cnt \<ge> maxCnt then maxCnt else cnt)
           in if cnt = 0 then (Inr False, s)
              else
                let v0 = new_Uint32Array (nat (int (length oldValues) - cnt)) in
                case ta_set v0 (subarray oldValues 0 startIndex) 0 of
                  Inl e \<Rightarrow> (Inl e, s\<lparr>values_arr := v0\<rparr>)
                | Inr v1 \<Rightarrow>
                (case ta_set v1 (subarray_from oldValues (startIndex + cnt)) startIndex of
                  Inl e \<Rightarrow> (Inl e, s\<lparr>values_arr := v1\<rparr>)
                | Inr v2 \<Rightarrow>
                  let p0 = new_Uint32Array (length v2);
                      vi = (if startIndex - 1 < prefixSumValidIndex s then startIndex - 1
                            else prefixSumValidIndex s);
                      s1 = s\<lparr>values_arr := v2, prefixSum := p0, prefixSumValidIndex := vi\<rparr>
                  in if vi \<ge> 0 then
                       (case ta_set p0 (subarray oldPrefixSum 0 (vi + 1)) 0 of
                          Inl e \<Rightarrow> (Inl e, s1)
                        | Inr p1 \<Rightarrow> (Inr True, s1\<lparr>prefixSum := p1\<rparr>))
                     else (Inr True, s1)))"

function fill :: "uint32 list \<Rightarrow> uint32 list \<Rightarrow> int \<Rightarrow> int \<Rightarrow> uint32 list" where
  \<comment> \<open>the loop \<open>for (let i = startIndex; i <= index; i++)\<close> of \<open>_getAccumulatedValue\<close>;
      the arguments are the values, the cache, \<open>i\<close> and \<open>index\<close>\<close>
  "fill vs ps i idx =
     (if i \<le> idx
      then fill vs (ta_put ps i (num_add (ta_get ps (i - 1)) (ta_get vs i))) (i + 1) idx
      else ps)"
  by pat_completeness auto
termination
  by (relation "measure (\<lambda>(vs, ps, i, idx). nat (idx + 1 - i))") auto

definition getAccumulatedValue' ::
  "int \<Rightarrow> PrefixSumComputer \<Rightarrow> int option \<times> PrefixSumComputer" where
  \<comment> \<open>the private method \<open>_getAccumulatedValue\<close>\<close>
  "getAccumulatedValue' index0 s =
     (if index0 \<le> prefixSumValidIndex s then (ta_get (prefixSum s) index0, s)
      else
        let startIndex0 = prefixSumValidIndex s + 1;
            ps0 = (if startIndex0 = 0 then ta_put (prefixSum s) 0 (ta_get (values_arr s) 0)
                   else prefixSum s);
            startIndex = (if startIndex0 = 0 then startIndex0 + 1 else startIndex0);
            idx = (if index0 \<ge> int (length (values_arr s)) then int (length (values_arr s)) - 1
                   else index0);
            ps1 = fill (values_arr s) ps0 startIndex idx;
            vi = max (prefixSumValidIndex s) idx
        in (ta_get ps1 idx, s\<lparr>prefixSum := ps1, prefixSumValidIndex := vi\<rparr>))"

definition getTotalValue :: "PrefixSumComputer \<Rightarrow> int option \<times> PrefixSumComputer" where
  "getTotalValue s =
     (if length (values_arr s) = 0 then (Some 0, s)
      else getAccumulatedValue' (int (length (values_arr s)) - 1) s)"

definition getAccumulatedValue ::
  "int \<Rightarrow> PrefixSumComputer \<Rightarrow> int option \<times> PrefixSumComputer" where
  "getAccumulatedValue index0 s =
     (if index0 < 0 then (Some 0, s) else getAccumulatedValue' (toUint32 index0) s)"

function search ::
  "uint32 list \<Rightarrow> uint32 list \<Rightarrow> int \<Rightarrow> int \<Rightarrow> int \<Rightarrow> int \<times> int option
   \<Rightarrow> int \<times> int option" where
  \<comment> \<open>the loop \<open>while (low <= high)\<close> of \<open>getIndexOf\<close>; the arguments are the values, the
      cache, the floored position, \<open>low\<close>, \<open>high\<close> and the current \<open>(mid, midStart)\<close>, and
      the result is the final \<open>(mid, midStart)\<close>. \<open>low + ((high - low) / 2) | 0\<close> truncates
      a non-negative number, since \<open>0 \<le> low \<le> high\<close> in the loop. A comparison with
      \<open>NaN\<close> or \<open>undefined\<close> is false.\<close>
  "search vs ps av low high r =
     (if low \<le> high then
        let mid = low + (high - low) div 2 in
        case ta_get ps mid of
          None \<Rightarrow> (mid, None)
        | Some midStop \<Rightarrow>
          (case ta_get vs mid of
             None \<Rightarrow> if av \<ge> midStop then search vs ps av (mid + 1) high (mid, None)
                     else (mid, None)
           | Some v \<Rightarrow>
               let midStart = midStop - v in
               if av < midStart then search vs ps av low (mid - 1) (mid, Some midStart)
               else if av \<ge> midStop then search vs ps av (mid + 1) high (mid, Some midStart)
               else (mid, Some midStart))
      else r)"
  by pat_completeness auto
termination
  by (relation "measure (\<lambda>(vs, ps, av, low, high, r). nat (high + 1 - low))") auto

definition getIndexOf ::
  "real \<Rightarrow> PrefixSumComputer \<Rightarrow> PrefixSumIndexOfResult \<times> PrefixSumComputer" where
  "getIndexOf accumulatedValue s =
     (let av = \<lfloor>accumulatedValue\<rfloor>;
          s1 = snd (getTotalValue s);
          (mid, midStart) =
             search (values_arr s1) (prefixSum s1) av 0 (int (length (values_arr s1)) - 1) (0, Some 0)
      in (\<lparr>index = mid, remainder = map_option (\<lambda>m. av - m) midStart\<rparr>, s1))"

subsection \<open>Sequences of calls\<close>

datatype operation =
    InsertValues int "uint32 list"
  | ChangeValue int int
  | RemoveValues int int
  | GetTotalValue
  | GetAccumulatedValue int
  | GetIndexOf real

fun exec :: "operation \<Rightarrow> PrefixSumComputer \<Rightarrow> error + PrefixSumComputer" where
  \<comment> \<open>one public method call that completes, and the state it leaves; a call that throws
      is \<open>Inl\<close>\<close>
  "exec (InsertValues i ws) s =
     (case insertValues i ws s of (Inl e, _) \<Rightarrow> Inl e | (Inr _, s') \<Rightarrow> Inr s')"
| "exec (ChangeValue i v) s = Inr (snd (changeValue i v s))"
| "exec (RemoveValues i c) s =
     (case removeValues i c s of (Inl e, _) \<Rightarrow> Inl e | (Inr _, s') \<Rightarrow> Inr s')"
| "exec GetTotalValue s = Inr (snd (getTotalValue s))"
| "exec (GetAccumulatedValue i) s = Inr (snd (getAccumulatedValue i s))"
| "exec (GetIndexOf p) s = Inr (snd (getIndexOf p s))"

fun run :: "operation list \<Rightarrow> PrefixSumComputer \<Rightarrow> error + PrefixSumComputer" where
  \<comment> \<open>a sequence of calls, stopped by the first one that throws\<close>
  "run [] s = Inr s"
| "run (op # ops) s = (case exec op s of Inl e \<Rightarrow> Inl e | Inr s' \<Rightarrow> run ops s')"

subsection \<open>Sums and the state invariant\<close>

definition exact_sum :: "uint32 list \<Rightarrow> int" where
  \<comment> \<open>the mathematical sum of the weights, computed from scratch\<close>
  "exact_sum ws = sum_list (map uint ws)"

definition invar :: "PrefixSumComputer \<Rightarrow> bool" where
  \<comment> \<open>both arrays have the same length, the valid index lies between \<open>-1\<close> and the last
      index, and every cache entry up to the valid index is the sum of the values up to
      there, as a \<open>Uint32Array\<close> holds it: reduced modulo \<open>2^32\<close>\<close>
  "invar s \<longleftrightarrow>
     length (prefixSum s) = length (values_arr s)
     \<and> -1 \<le> prefixSumValidIndex s
     \<and> prefixSumValidIndex s \<le> int (length (values_arr s)) - 1
     \<and> (\<forall>i \<in> {0 ..< nat (prefixSumValidIndex s + 1)}.
           uint (prefixSum s ! i) = exact_sum (take (Suc i) (values_arr s)) mod 4294967296)"

definition wvalid :: "PrefixSumComputer \<Rightarrow> bool" where
  \<comment> \<open>the same invariant, with each sum taken in the element type of the array\<close>
  "wvalid s \<longleftrightarrow>
     length (prefixSum s) = length (values_arr s)
     \<and> -1 \<le> prefixSumValidIndex s
     \<and> prefixSumValidIndex s \<le> int (length (values_arr s)) - 1
     \<and> (\<forall>i < nat (prefixSumValidIndex s + 1).
           prefixSum s ! i = sum_list (take (Suc i) (values_arr s)))"

section \<open>Auxiliary facts\<close>

subsection \<open>Coercion, sums and the loops\<close>

lemma toUint32_id: "0 \<le> v \<Longrightarrow> v \<le> 4294967295 \<Longrightarrow> toUint32 v = v"
  by (simp add: toUint32_def)

lemma toUint32_range: "0 \<le> toUint32 v \<and> toUint32 v \<le> 4294967295"
  by (simp add: toUint32_def)

lemma uint_sum_list: "uint (sum_list ws :: uint32) = exact_sum ws mod 4294967296"
proof (induction ws)
  case Nil
  show ?case by (simp add: exact_sum_def)
next
  case (Cons w ws)
  have "uint (w + sum_list ws) = (uint w + uint (sum_list ws)) mod 4294967296"
    by (simp add: uint_word_ariths)
  also have "\<dots> = (uint w + exact_sum ws) mod 4294967296"
    by (simp add: Cons.IH mod_add_right_eq)
  finally show ?case by (simp add: exact_sum_def)
qed

lemma exact_sum_nonneg: "0 \<le> exact_sum ws"
  by (induction ws) (simp_all add: exact_sum_def)

lemma exact_sum_append: "exact_sum (xs @ ys) = exact_sum xs + exact_sum ys"
  by (simp add: exact_sum_def)

lemma exact_sum_take_mono: "i \<le> j \<Longrightarrow> exact_sum (take i ws) \<le> exact_sum (take j ws)"
proof -
  assume "i \<le> j"
  then have "take j ws = take i ws @ take (j - i) (drop i ws)"
    by (metis le_add_diff_inverse take_add)
  then show ?thesis using exact_sum_nonneg [of "take (j - i) (drop i ws)"]
    by (simp add: exact_sum_append)
qed

lemma exact_sum_take_Suc:
  "i < length ws \<Longrightarrow> exact_sum (take (Suc i) ws) = exact_sum (take i ws) + uint (ws ! i)"
  by (simp add: take_Suc_conv_app_nth exact_sum_def)

lemma invar_wvalid: "invar s \<longleftrightarrow> wvalid s"
  unfolding invar_def wvalid_def
  by (auto simp: uint_sum_list [symmetric] word_uint_eq_iff)

lemma fill_correct:
  "length ps = length vs \<Longrightarrow> 1 \<le> i \<Longrightarrow> idx < int (length vs) \<Longrightarrow>
   \<forall>k < nat i. ps ! k = sum_list (take (Suc k) vs) \<Longrightarrow>
   length (fill vs ps i idx) = length vs \<and>
   (\<forall>k < nat (max i (idx + 1)). fill vs ps i idx ! k = sum_list (take (Suc k) vs))"
proof (induction vs ps i idx rule: fill.induct)
  case (1 vs ps i idx)
  show ?case
  proof (cases "i \<le> idx")
    case False
    then have "max i (idx + 1) = i" by simp
    with False 1(2-) show ?thesis by (simp del: fill.simps add: fill.simps [of vs ps i idx])
  next
    case True
    let ?ps' = "ta_put ps i (num_add (ta_get ps (i - 1)) (ta_get vs i))"
    have i: "nat i < length vs" "0 < nat i" using True 1(3,4) by auto
    have ps': "?ps' = ps[nat i := ps ! (nat i - 1) + vs ! nat i]"
      using i 1(2,3,4) True
      by (simp add: ta_put_def ta_get_def nat_diff_distrib)
    have len: "length ?ps' = length vs" using 1(2) by (simp add: ps')
    have val: "\<forall>k < nat (i + 1). ?ps' ! k = sum_list (take (Suc k) vs)"
    proof (intro allI impI)
      fix k assume k: "k < nat (i + 1)"
      show "?ps' ! k = sum_list (take (Suc k) vs)"
      proof (cases "k = nat i")
        case True
        have "ps ! (nat i - 1) = sum_list (take (Suc (nat i - 1)) vs)"
          using 1(5) i by simp
        then show ?thesis using i True 1(2)
          by (simp add: ps' take_Suc_conv_app_nth)
      next
        case False
        then have "k < nat i" using k by linarith
        then show ?thesis using 1(5) False by (simp add: ps')
      qed
    qed
    have "length (fill vs ?ps' (i + 1) idx) = length vs \<and>
      (\<forall>k < nat (max (i + 1) (idx + 1)). fill vs ?ps' (i + 1) idx ! k = sum_list (take (Suc k) vs))"
      using 1(1) [OF True len _ 1(4) val] 1(3) by simp
    moreover have "max (i + 1) (idx + 1) = max i (idx + 1)" using True by simp
    ultimately show ?thesis using True
      by (simp del: fill.simps add: fill.simps [of vs ps i idx])
  qed
qed

lemma gav'_empty:
  "wvalid s \<Longrightarrow> values_arr s = [] \<Longrightarrow> 0 \<le> i \<Longrightarrow> getAccumulatedValue' i s = (None, s)"
  by (simp add: wvalid_def getAccumulatedValue'_def ta_put_def ta_get_def Let_def)

lemma gav'_cached:
  "i \<le> prefixSumValidIndex s \<Longrightarrow> getAccumulatedValue' i s = (ta_get (prefixSum s) i, s)"
  by (simp add: getAccumulatedValue'_def)

lemma gav'_fill:
  assumes w: "wvalid s" and i: "0 \<le> i" and ne: "values_arr s \<noteq> []"
    and nc: "\<not> i \<le> prefixSumValidIndex s"
  defines "idx \<equiv> min i (int (length (values_arr s)) - 1)"
  shows "\<exists>ps. getAccumulatedValue' i s
            = (Some (uint (sum_list (take (Suc (nat idx)) (values_arr s)))),
               s\<lparr>prefixSum := ps, prefixSumValidIndex := max (prefixSumValidIndex s) idx\<rparr>)
          \<and> length ps = length (values_arr s)
          \<and> (\<forall>k < nat (max (prefixSumValidIndex s) idx + 1).
                ps ! k = sum_list (take (Suc k) (values_arr s)))"
proof -
  let ?vs = "values_arr s" and ?v = "prefixSumValidIndex s"
  let ?ps0 = "if ?v + 1 = 0 then ta_put (prefixSum s) 0 (ta_get ?vs 0) else prefixSum s"
  let ?st = "if ?v + 1 = 0 then ?v + 1 + 1 else ?v + 1"
  let ?ps1 = "fill ?vs ?ps0 ?st idx"
  have len: "length (prefixSum s) = length ?vs" and v: "-1 \<le> ?v" "?v \<le> int (length ?vs) - 1"
    and val: "\<forall>k < nat (?v + 1). prefixSum s ! k = sum_list (take (Suc k) ?vs)"
    using w by (simp_all add: wvalid_def)
  have n: "0 < length ?vs" using ne by simp
  have idx: "0 \<le> idx" "idx < int (length ?vs)" using i n by (simp_all add: idx_def)
  have idx_eq: "(if i \<ge> int (length ?vs) then int (length ?vs) - 1 else i) = idx"
    by (simp add: idx_def)
  have len0: "length ?ps0 = length ?vs" using len by (simp add: ta_put_def)
  have st1: "1 \<le> ?st" using v by simp
  have val0: "\<forall>k < nat ?st. ?ps0 ! k = sum_list (take (Suc k) ?vs)"
  proof (cases "?v + 1 = 0")
    case True
    have "?ps0 = (prefixSum s)[0 := ?vs ! 0]" using True n len
      by (simp add: ta_put_def ta_get_def)
    moreover have "take (Suc 0) ?vs = [?vs ! 0]" using n
      by (simp add: take_Suc_conv_app_nth)
    ultimately show ?thesis using True len n by simp
  next
    case False
    then show ?thesis using val by simp
  qed
  have fc: "length ?ps1 = length ?vs \<and>
      (\<forall>k < nat (max ?st (idx + 1)). ?ps1 ! k = sum_list (take (Suc k) ?vs))"
    by (rule fill_correct [OF len0 st1 idx(2) val0])
  have le: "nat (max ?v idx + 1) \<le> nat (max ?st (idx + 1))" using v by auto
  have ret: "ta_get ?ps1 idx = Some (uint (sum_list (take (Suc (nat idx)) ?vs)))"
  proof -
    have "nat idx < nat (max ?st (idx + 1))" using idx by auto
    then have "?ps1 ! nat idx = sum_list (take (Suc (nat idx)) ?vs)" using fc by blast
    then show ?thesis using idx fc by (simp add: ta_get_def)
  qed
  have "getAccumulatedValue' i s
      = (ta_get ?ps1 idx, s\<lparr>prefixSum := ?ps1, prefixSumValidIndex := max ?v idx\<rparr>)"
    using nc by (simp add: getAccumulatedValue'_def Let_def idx_eq)
  with ret fc le show ?thesis by (intro exI [of _ ?ps1]) auto
qed

lemma gav'_wvalid:
  assumes w: "wvalid s" and i: "0 \<le> i"
  shows "wvalid (snd (getAccumulatedValue' i s))"
    and "values_arr (snd (getAccumulatedValue' i s)) = values_arr s"
    and "prefixSumValidIndex s \<le> prefixSumValidIndex (snd (getAccumulatedValue' i s))"
proof -
  have "wvalid (snd (getAccumulatedValue' i s))
      \<and> values_arr (snd (getAccumulatedValue' i s)) = values_arr s
      \<and> prefixSumValidIndex s \<le> prefixSumValidIndex (snd (getAccumulatedValue' i s))"
  proof (cases "i \<le> prefixSumValidIndex s")
    case True
    then show ?thesis using w by (simp add: gav'_cached)
  next
    case nc: False
    show ?thesis
    proof (cases "values_arr s = []")
      case True
      then show ?thesis using w i by (simp add: gav'_empty)
    next
      case False
      from gav'_fill [OF w i False nc] obtain ps where
        "getAccumulatedValue' i s
            = (Some (uint (sum_list (take (Suc (nat (min i (int (length (values_arr s)) - 1)))) (values_arr s)))),
               s\<lparr>prefixSum := ps, prefixSumValidIndex := max (prefixSumValidIndex s) (min i (int (length (values_arr s)) - 1))\<rparr>)"
        "length ps = length (values_arr s)"
        "\<forall>k < nat (max (prefixSumValidIndex s) (min i (int (length (values_arr s)) - 1)) + 1).
                ps ! k = sum_list (take (Suc k) (values_arr s))"
        by blast
      then show ?thesis using w i False by (auto simp add: wvalid_def)
    qed
  qed
  then show "wvalid (snd (getAccumulatedValue' i s))"
    and "values_arr (snd (getAccumulatedValue' i s)) = values_arr s"
    and "prefixSumValidIndex s \<le> prefixSumValidIndex (snd (getAccumulatedValue' i s))"
    by simp_all
qed

lemma gav'_result:
  assumes w: "wvalid s" and i: "0 \<le> i" and ne: "values_arr s \<noteq> []"
  shows "fst (getAccumulatedValue' i s)
     = Some (uint (sum_list (take (Suc (nat (min i (int (length (values_arr s)) - 1)))) (values_arr s))))"
proof (cases "i \<le> prefixSumValidIndex s")
  case True
  have "i < int (length (values_arr s))" "nat i < nat (prefixSumValidIndex s + 1)"
    "length (prefixSum s) = length (values_arr s)"
    using w True i by (simp_all add: wvalid_def)
  moreover have "\<forall>k < nat (prefixSumValidIndex s + 1).
       prefixSum s ! k = sum_list (take (Suc k) (values_arr s))"
    using w by (simp add: wvalid_def)
  ultimately show ?thesis using True i by (simp add: gav'_cached ta_get_def min_def)
next
  case False
  from gav'_fill [OF w i ne False] show ?thesis by auto
qed

lemma gav'_watermark:
  assumes w: "wvalid s" and i: "0 \<le> i"
  shows "prefixSumValidIndex (snd (getAccumulatedValue' i s))
     = max (prefixSumValidIndex s) (min i (int (length (values_arr s)) - 1))"
proof (cases "i \<le> prefixSumValidIndex s")
  case True
  then show ?thesis using w by (simp add: gav'_cached wvalid_def)
next
  case nc: False
  show ?thesis
  proof (cases "values_arr s = []")
    case True
    then show ?thesis using w i by (simp add: gav'_empty wvalid_def)
  next
    case False
    from gav'_fill [OF w i False nc] show ?thesis by auto
  qed
qed

lemma ta_set_fits:
  "0 \<le> off \<Longrightarrow> int (length src) + off \<le> int (length tgt) \<Longrightarrow>
   ta_set tgt src off = Inr (take (nat off) tgt @ src @ drop (nat off + length src) tgt)"
  by (simp add: ta_set_def)

lemma ta_set_overflows:
  "int (length tgt) < int (length src) + off \<Longrightarrow> ta_set tgt src off = Inl RangeError"
  by (simp add: ta_set_def)

lemma subarray_0: "0 \<le> e \<Longrightarrow> subarray a 0 e = take (nat e) a"
  by (simp add: subarray_def rel_index_def Let_def min_def)

lemma subarray_from_nonneg: "0 \<le> b \<Longrightarrow> subarray_from a b = drop (nat b) a"
  by (simp add: subarray_from_def rel_index_def min_def)

lemma insertValues_empty: "insertValues ix [] s = (Inr False, s)"
  by (simp add: insertValues_def)

lemma insertValues_result:
  assumes ws: "ws \<noteq> []" and at: "toUint32 ix \<le> int (length (values_arr s))"
  defines "j \<equiv> nat (toUint32 ix)"
    and "vi \<equiv> min (prefixSumValidIndex s) (toUint32 ix - 1)"
  shows "insertValues ix ws s =
     (Inr True,
      s\<lparr>values_arr := take j (values_arr s) @ ws @ drop j (values_arr s),
        prefixSum := take (nat (vi + 1)) (prefixSum s)
            @ replicate (length (values_arr s) + length ws
                          - min (nat (vi + 1)) (length (prefixSum s))) 0,
        prefixSumValidIndex := vi\<rparr>)"
proof -
  let ?vs = "values_arr s" and ?n = "length (values_arr s)" and ?m = "length ws"
  have j0: "0 \<le> toUint32 ix" by (simp add: toUint32_def)
  have j: "j \<le> ?n" and tj: "toUint32 ix = int j" using at j0 by (simp_all add: j_def)
  let ?v0 = "replicate (?n + ?m) (0::uint32)"
  let ?v1 = "take j ?vs @ replicate (?n + ?m - j) (0::uint32)"
  let ?v2 = "take j ?vs @ replicate ?m (0::uint32) @ drop j ?vs"
  let ?v3 = "take j ?vs @ ws @ drop j ?vs"
  have s1: "ta_set ?v0 (subarray ?vs 0 (toUint32 ix)) 0 = Inr ?v1"
    using j by (simp add: tj subarray_0 ta_set_def min_def)
  have "ta_set ?v1 (subarray_from ?vs (toUint32 ix)) (toUint32 ix + int ?m)
      = Inr (take (j + ?m) ?v1 @ drop j ?vs @ drop (j + ?m + (?n - j)) ?v1)"
    using j by (simp add: tj subarray_from_nonneg ta_set_def nat_add_distrib)
  moreover have "take (j + ?m) ?v1 = take j ?vs @ replicate ?m 0" using j by (auto simp: min_def)
  moreover have "drop (j + ?m + (?n - j)) ?v1 = []" using j by simp
  ultimately have s2: "ta_set ?v1 (subarray_from ?vs (toUint32 ix)) (toUint32 ix + int ?m)
      = Inr ?v2" by simp
  have "ta_set ?v2 ws (toUint32 ix) = Inr (take j ?v2 @ ws @ drop (j + ?m) ?v2)"
    using j by (simp add: tj ta_set_def)
  moreover have "take j ?v2 = take j ?vs" using j by simp
  moreover have "drop (j + ?m) ?v2 = drop j ?vs" using j by (auto simp: min_def)
  ultimately have s3: "ta_set ?v2 ws (toUint32 ix) = Inr ?v3" by simp
  have l3: "length ?v3 = ?n + ?m" using j by simp
  have vi: "(if toUint32 ix - 1 < prefixSumValidIndex s then toUint32 ix - 1
             else prefixSumValidIndex s) = vi" by (simp add: vi_def min_def)
  have vi_le: "vi + 1 \<le> int ?n" using at by (simp add: vi_def min_def)
  have s4: "0 \<le> vi \<Longrightarrow> ta_set (replicate (?n + ?m) 0) (subarray (prefixSum s) 0 (vi + 1)) 0
      = Inr (take (nat (vi + 1)) (prefixSum s)
            @ replicate (?n + ?m - min (nat (vi + 1)) (length (prefixSum s))) 0)"
    using vi_le by (auto simp add: subarray_0 ta_set_def min_def)
  have unf: "insertValues ix ws s =
    (let s1 = s\<lparr>values_arr := ?v3, prefixSum := replicate (?n + ?m) 0, prefixSumValidIndex := vi\<rparr>
     in if vi \<ge> 0 then
          (case ta_set (replicate (?n + ?m) 0) (subarray (prefixSum s) 0 (vi + 1)) 0 of
             Inl e \<Rightarrow> (Inl e, s1)
           | Inr p1 \<Rightarrow> (Inr True, s1\<lparr>prefixSum := p1\<rparr>))
        else (Inr True, s1))"
    using ws
    by (simp add: insertValues_def Let_def new_Uint32Array_def s1 s2 s3 l3 vi
        del: length_append length_take length_drop split del: if_split)
  show ?thesis
  proof (cases "0 \<le> vi")
    case True
    then show ?thesis by (simp add: unf s4)
  next
    case False
    then show ?thesis by (simp add: unf)
  qed
qed

lemma insertValues_throws:
  assumes ws: "ws \<noteq> []" and at: "int (length (values_arr s)) < toUint32 ix"
  shows "insertValues ix ws s =
     (Inl RangeError, s\<lparr>values_arr := values_arr s @ replicate (length ws) 0\<rparr>)"
proof -
  let ?vs = "values_arr s" and ?n = "length (values_arr s)" and ?m = "length ws"
  let ?v1 = "?vs @ replicate ?m (0::uint32)"
  have s1: "ta_set (replicate (?n + ?m) 0) (subarray ?vs 0 (toUint32 ix)) 0 = Inr ?v1"
    using at by (simp add: subarray_0 ta_set_def)
  have s2: "ta_set ?v1 (subarray_from ?vs (toUint32 ix)) (toUint32 ix + int ?m) = Inl RangeError"
    using at by (simp add: ta_set_overflows)
  show ?thesis using ws
    by (simp add: insertValues_def Let_def new_Uint32Array_def s1 s2 del: length_append)
qed

lemma removeValues_noop:
  "int (length (values_arr s)) \<le> toUint32 start \<or> toUint32 cnt = 0 \<Longrightarrow>
   removeValues start cnt s = (Inr False, s)"
  by (auto simp add: removeValues_def Let_def)

lemma removeValues_result:
  assumes st: "toUint32 start < int (length (values_arr s))" and cnt: "toUint32 cnt \<noteq> 0"
  defines "j \<equiv> nat (toUint32 start)"
    and "c \<equiv> nat (min (toUint32 cnt) (int (length (values_arr s)) - toUint32 start))"
    and "vi \<equiv> min (prefixSumValidIndex s) (toUint32 start - 1)"
  shows "removeValues start cnt s =
     (Inr True,
      s\<lparr>values_arr := take j (values_arr s) @ drop (j + c) (values_arr s),
        prefixSum := take (nat (vi + 1)) (prefixSum s)
            @ replicate (length (values_arr s) - c
                          - min (nat (vi + 1)) (length (prefixSum s))) 0,
        prefixSumValidIndex := vi\<rparr>)"
proof -
  let ?vs = "values_arr s" and ?n = "length (values_arr s)"
  have j0: "0 \<le> toUint32 start" and c0: "0 \<le> toUint32 cnt" by (simp_all add: toUint32_def)
  have j: "j < ?n" and tj: "toUint32 start = int j" using st j0 by (simp_all add: j_def)
  have c: "0 < c" "j + c \<le> ?n" using cnt c0 j by (auto simp add: c_def tj min_def)
  have tc: "(if toUint32 cnt \<ge> int ?n - int j then int ?n - int j
             else toUint32 cnt) = int c"
    using c0 j by (auto simp add: c_def tj min_def)
  let ?v0 = "replicate (?n - c) (0::uint32)"
  let ?v1 = "take j ?vs @ replicate (?n - (c + j)) (0::uint32)"
  let ?v2 = "take j ?vs @ drop (j + c) ?vs"
  have s1: "ta_set ?v0 (subarray ?vs 0 (int j)) 0 = Inr ?v1"
    using j c by (simp add: subarray_0 ta_set_def min_def)
  have "ta_set ?v1 (subarray_from ?vs (int j + int c)) (int j)
      = Inr (take j ?v1 @ drop (j + c) ?vs @ drop (j + (?n - (j + c))) ?v1)"
    using j c by (simp add: subarray_from_nonneg ta_set_def nat_add_distrib)
  moreover have "take j ?v1 = take j ?vs" using j by simp
  moreover have "drop (j + (?n - (j + c))) ?v1 = []" using j c by simp
  ultimately have s2: "ta_set ?v1 (subarray_from ?vs (int j + int c)) (int j) = Inr ?v2"
    by simp
  have l2: "length ?v2 = ?n - c" using j c by auto
  have vi: "(if int j - 1 < prefixSumValidIndex s then int j - 1
             else prefixSumValidIndex s) = vi" by (simp add: vi_def tj min_def)
  have vi_le: "vi + 1 \<le> int ?n - int c" using c by (simp add: vi_def tj min_def)
  have s4: "0 \<le> vi \<Longrightarrow> ta_set (replicate (?n - c) 0) (subarray (prefixSum s) 0 (vi + 1)) 0
      = Inr (take (nat (vi + 1)) (prefixSum s)
            @ replicate (?n - c - min (nat (vi + 1)) (length (prefixSum s))) 0)"
    using vi_le c by (auto simp add: subarray_0 ta_set_def min_def)
  have nc: "nat (int ?n - int c) = ?n - c" by simp
  have unf: "removeValues start cnt s =
    (let s1 = s\<lparr>values_arr := ?v2, prefixSum := replicate (?n - c) 0, prefixSumValidIndex := vi\<rparr>
     in if vi \<ge> 0 then
          (case ta_set (replicate (?n - c) 0) (subarray (prefixSum s) 0 (vi + 1)) 0 of
             Inl e \<Rightarrow> (Inl e, s1)
           | Inr p1 \<Rightarrow> (Inr True, s1\<lparr>prefixSum := p1\<rparr>))
        else (Inr True, s1))"
    using j c
    by (simp add: removeValues_def Let_def new_Uint32Array_def tj tc nc s1 s2 l2 vi
        del: length_append length_take length_drop split del: if_split)
  show ?thesis
  proof (cases "0 \<le> vi")
    case True
    then show ?thesis by (simp add: unf s4)
  next
    case False
    then show ?thesis by (simp add: unf)
  qed
qed

lemma changeValue_same:
  "ta_get (values_arr s) (toUint32 ix) = Some (toUint32 v) \<Longrightarrow> changeValue ix v s = (False, s)"
  by (simp add: changeValue_def)

lemma changeValue_differs:
  "ta_get (values_arr s) (toUint32 ix) \<noteq> Some (toUint32 v) \<Longrightarrow>
   changeValue ix v s =
     (True, s\<lparr>values_arr := ta_put (values_arr s) (toUint32 ix) (Some (toUint32 v)),
              prefixSumValidIndex := min (prefixSumValidIndex s) (toUint32 ix - 1)\<rparr>)"
  by (simp add: changeValue_def Let_def min_def)

lemma wvalid_new: "wvalid (new_PrefixSumComputer vs)"
  by (simp add: wvalid_def new_PrefixSumComputer_def new_Uint32Array_def)

lemma insertValues_wvalid:
  assumes w: "wvalid s" and r: "insertValues ix ws s = (Inr b, s')"
  shows "wvalid s'"
proof (cases "ws = []")
  case True
  then show ?thesis using w r by (simp add: insertValues_empty)
next
  case ws: False
  show ?thesis
  proof (cases "toUint32 ix \<le> int (length (values_arr s))")
    case False
    then show ?thesis using r insertValues_throws [OF ws, of s ix] by simp
  next
    case True
    let ?j = "nat (toUint32 ix)" and ?vi = "min (prefixSumValidIndex s) (toUint32 ix - 1)"
    have s': "s' = s\<lparr>values_arr := take ?j (values_arr s) @ ws @ drop ?j (values_arr s),
        prefixSum := take (nat (?vi + 1)) (prefixSum s)
            @ replicate (length (values_arr s) + length ws
                          - min (nat (?vi + 1)) (length (prefixSum s))) 0,
        prefixSumValidIndex := ?vi\<rparr>"
      using r insertValues_result [OF ws True] by simp
    have len: "length (prefixSum s) = length (values_arr s)"
      and v: "-1 \<le> prefixSumValidIndex s" "prefixSumValidIndex s \<le> int (length (values_arr s)) - 1"
      and val: "\<forall>k < nat (prefixSumValidIndex s + 1).
                  prefixSum s ! k = sum_list (take (Suc k) (values_arr s))"
      using w by (simp_all add: wvalid_def)
    have j0: "0 \<le> toUint32 ix" by (simp add: toUint32_def)
    have a: "nat (?vi + 1) \<le> ?j" "nat (?vi + 1) \<le> nat (prefixSumValidIndex s + 1)"
      "nat (?vi + 1) \<le> length (values_arr s)"
      using True v j0 by auto
    have "\<forall>k < nat (?vi + 1). prefixSum s' ! k = sum_list (take (Suc k) (values_arr s'))"
    proof (intro allI impI)
      fix k assume k: "k < nat (?vi + 1)"
      then have "prefixSum s' ! k = prefixSum s ! k" using a len
        by (simp add: s' nth_append)
      moreover have "take (Suc k) (values_arr s') = take (Suc k) (values_arr s)"
        using k a True by (simp add: s')
      moreover have "prefixSum s ! k = sum_list (take (Suc k) (values_arr s))"
        using val k a by simp
      ultimately show "prefixSum s' ! k = sum_list (take (Suc k) (values_arr s'))" by simp
    qed
    moreover have "length (prefixSum s') = length (values_arr s')"
      using a len True by (simp add: s')
    moreover have "-1 \<le> prefixSumValidIndex s'" using v j0 by (simp add: s')
    moreover have "prefixSumValidIndex s' \<le> int (length (values_arr s')) - 1"
      using v by (simp add: s')
    moreover have "prefixSumValidIndex s' = ?vi" by (simp add: s')
    ultimately show ?thesis by (simp add: wvalid_def)
  qed
qed

lemma removeValues_wvalid:
  assumes w: "wvalid s" and r: "removeValues start cnt s = (Inr b, s')"
  shows "wvalid s'"
proof (cases "int (length (values_arr s)) \<le> toUint32 start \<or> toUint32 cnt = 0")
  case True
  then show ?thesis using w r by (simp add: removeValues_noop)
next
  case False
  then have st: "toUint32 start < int (length (values_arr s))" and cnt: "toUint32 cnt \<noteq> 0"
    by simp_all
  let ?j = "nat (toUint32 start)" and ?vi = "min (prefixSumValidIndex s) (toUint32 start - 1)"
  let ?c = "nat (min (toUint32 cnt) (int (length (values_arr s)) - toUint32 start))"
  have s': "s' = s\<lparr>values_arr := take ?j (values_arr s) @ drop (?j + ?c) (values_arr s),
        prefixSum := take (nat (?vi + 1)) (prefixSum s)
            @ replicate (length (values_arr s) - ?c
                          - min (nat (?vi + 1)) (length (prefixSum s))) 0,
        prefixSumValidIndex := ?vi\<rparr>"
    using r removeValues_result [OF st cnt] by simp
  have len: "length (prefixSum s) = length (values_arr s)"
    and v: "-1 \<le> prefixSumValidIndex s" "prefixSumValidIndex s \<le> int (length (values_arr s)) - 1"
    and val: "\<forall>k < nat (prefixSumValidIndex s + 1).
                prefixSum s ! k = sum_list (take (Suc k) (values_arr s))"
    using w by (simp_all add: wvalid_def)
  have j0: "0 \<le> toUint32 start" and c0: "0 \<le> toUint32 cnt" by (simp_all add: toUint32_def)
  have c: "?j + ?c \<le> length (values_arr s)" using st j0 c0 by (auto simp: min_def)
  have a: "nat (?vi + 1) \<le> ?j" "nat (?vi + 1) \<le> nat (prefixSumValidIndex s + 1)"
    "nat (?vi + 1) \<le> length (values_arr s)"
    using st v j0 by auto
  have "\<forall>k < nat (?vi + 1). prefixSum s' ! k = sum_list (take (Suc k) (values_arr s'))"
  proof (intro allI impI)
    fix k assume k: "k < nat (?vi + 1)"
    then have "prefixSum s' ! k = prefixSum s ! k" using a len
      by (simp add: s' nth_append)
    moreover have "take (Suc k) (values_arr s') = take (Suc k) (values_arr s)"
      using k a st by (simp add: s')
    moreover have "prefixSum s ! k = sum_list (take (Suc k) (values_arr s))"
      using val k a by simp
    ultimately show "prefixSum s' ! k = sum_list (take (Suc k) (values_arr s'))" by simp
  qed
  moreover have "length (values_arr s') = length (values_arr s) - ?c"
    using c st j0 by (auto simp add: s')
  moreover have "length (prefixSum s') = length (values_arr s) - ?c"
    using a c len by (auto simp add: s')
  moreover have "-1 \<le> prefixSumValidIndex s'" using v j0 by (simp add: s')
  moreover have "prefixSumValidIndex s' \<le> int (length (values_arr s) - ?c) - 1"
  proof -
    have "int ?c \<le> int (length (values_arr s)) - toUint32 start" using st by simp
    moreover have "?vi \<le> toUint32 start - 1" by simp
    moreover have "int (length (values_arr s) - ?c) = int (length (values_arr s)) - int ?c"
      using c by (intro of_nat_diff) linarith
    ultimately show ?thesis unfolding s' by simp
  qed
  moreover have "prefixSumValidIndex s' = ?vi" by (simp add: s')
  ultimately show ?thesis by (simp add: wvalid_def)
qed

lemma changeValue_wvalid:
  assumes w: "wvalid s"
  shows "wvalid (snd (changeValue ix v s))"
proof (cases "ta_get (values_arr s) (toUint32 ix) = Some (toUint32 v)")
  case True
  then show ?thesis using w by (simp add: changeValue_same)
next
  case False
  let ?j = "toUint32 ix" and ?vi = "min (prefixSumValidIndex s) (toUint32 ix - 1)"
  let ?s' = "snd (changeValue ix v s)"
  have s': "?s' = s\<lparr>values_arr := ta_put (values_arr s) ?j (Some (toUint32 v)),
              prefixSumValidIndex := ?vi\<rparr>"
    by (simp add: changeValue_differs [OF False])
  have len: "length (prefixSum s) = length (values_arr s)"
    and vv: "-1 \<le> prefixSumValidIndex s" "prefixSumValidIndex s \<le> int (length (values_arr s)) - 1"
    and val: "\<forall>k < nat (prefixSumValidIndex s + 1).
                prefixSum s ! k = sum_list (take (Suc k) (values_arr s))"
    using w by (simp_all add: wvalid_def)
  have j0: "0 \<le> ?j" by (simp add: toUint32_def)
  have "\<forall>k < nat (?vi + 1). prefixSum ?s' ! k = sum_list (take (Suc k) (values_arr ?s'))"
  proof (intro allI impI)
    fix k assume k: "k < nat (?vi + 1)"
    then have "Suc k \<le> nat ?j" using j0 by auto
    then have "take (Suc k) (values_arr ?s') = take (Suc k) (values_arr s)"
      by (simp add: s' ta_put_def)
    moreover have "prefixSum s ! k = sum_list (take (Suc k) (values_arr s))"
      using val k by simp
    ultimately show "prefixSum ?s' ! k = sum_list (take (Suc k) (values_arr ?s'))"
      by (simp add: s')
  qed
  moreover have "length (values_arr ?s') = length (values_arr s)" by (simp add: s' ta_put_def)
  moreover have "prefixSum ?s' = prefixSum s" "prefixSumValidIndex ?s' = ?vi" by (simp_all add: s')
  ultimately show ?thesis using len vv j0 by (simp add: wvalid_def)
qed

lemma getTotalValue_wvalid:
  "wvalid s \<Longrightarrow> wvalid (snd (getTotalValue s))"
  by (simp add: getTotalValue_def gav'_wvalid)

lemma getAccumulatedValue_wvalid:
  "wvalid s \<Longrightarrow> wvalid (snd (getAccumulatedValue i s))"
  by (simp add: getAccumulatedValue_def gav'_wvalid toUint32_range)

lemma getIndexOf_state: "snd (getIndexOf p s) = snd (getTotalValue s)"
  by (simp add: getIndexOf_def Let_def split: prod.split)

lemma exec_wvalid: "wvalid s \<Longrightarrow> exec op s = Inr s' \<Longrightarrow> wvalid s'"
proof (induction op s rule: exec.induct)
  case (1 i ws s)
  then show ?case by (auto split: prod.splits sum.splits dest: insertValues_wvalid)
next
  case (2 i v s)
  then show ?case using changeValue_wvalid by auto
next
  case (3 i c s)
  then show ?case by (auto split: prod.splits sum.splits dest: removeValues_wvalid)
next
  case (4 s)
  then show ?case using getTotalValue_wvalid by auto
next
  case (5 i s)
  then show ?case using getAccumulatedValue_wvalid by auto
next
  case (6 p s)
  then show ?case using getTotalValue_wvalid by (auto simp: getIndexOf_state)
qed

lemma run_wvalid: "wvalid s \<Longrightarrow> run ops s = Inr s' \<Longrightarrow> wvalid s'"
proof (induction ops arbitrary: s)
  case Nil
  then show ?case by simp
next
  case (Cons op ops)
  then show ?case by (auto split: sum.splits dest: exec_wvalid)
qed

lemma search_step_reads:
  assumes len: "length ps = length vs"
    and full: "\<forall>k < length vs. uint (ps ! k) = exact_sum (take (Suc k) vs)"
    and m: "0 \<le> m" "m < int (length vs)"
  shows "ta_get ps m = Some (exact_sum (take (nat (m + 1)) vs))"
    and "ta_get vs m = Some (exact_sum (take (nat (m + 1)) vs) - exact_sum (take (nat m) vs))"
proof -
  have k: "nat m < length vs" "nat (m + 1) = Suc (nat m)" using m by auto
  show "ta_get ps m = Some (exact_sum (take (nat (m + 1)) vs))"
    using m k full len by (simp add: ta_get_def)
  show "ta_get vs m = Some (exact_sum (take (nat (m + 1)) vs) - exact_sum (take (nat m) vs))"
    using m k by (simp add: ta_get_def exact_sum_take_Suc)
qed

lemma search_finds:
  "length ps = length vs \<Longrightarrow>
   \<forall>k < length vs. uint (ps ! k) = exact_sum (take (Suc k) vs) \<Longrightarrow>
   0 \<le> low \<Longrightarrow> high < int (length vs) \<Longrightarrow>
   exact_sum (take (nat low) vs) \<le> av \<Longrightarrow> av < exact_sum (take (nat (high + 1)) vs) \<Longrightarrow>
   \<exists>m. search vs ps av low high r = (m, Some (exact_sum (take (nat m) vs)))
      \<and> low \<le> m \<and> m \<le> high
      \<and> exact_sum (take (nat m) vs) \<le> av \<and> av < exact_sum (take (nat (m + 1)) vs)"
proof (induction vs ps av low high r rule: search.induct)
  case (1 vs ps av low high r)
  note len = "1.prems"(1) and full = "1.prems"(2) and low = "1.prems"(3)
    and high = "1.prems"(4) and b1 = "1.prems"(5) and b2 = "1.prems"(6)
  have lh: "low \<le> high"
  proof (rule ccontr)
    assume "\<not> low \<le> high"
    then have "nat (high + 1) \<le> nat low" by simp
    from exact_sum_take_mono [OF this, of vs] b1 b2 show False by simp
  qed
  define mid where "mid = low + (high - low) div 2"
  have mid: "low \<le> mid" "mid \<le> high" "0 \<le> mid" "mid < int (length vs)"
    using lh low high by (auto simp: mid_def)
  let ?stop = "exact_sum (take (nat (mid + 1)) vs)" and ?start = "exact_sum (take (nat mid) vs)"
  have g1: "ta_get ps mid = Some ?stop" and g2: "ta_get vs mid = Some (?stop - ?start)"
    using search_step_reads [OF len full mid(3,4)] by simp_all
  have unf: "search vs ps av low high r =
      (if av < ?start then search vs ps av low (mid - 1) (mid, Some ?start)
       else if av \<ge> ?stop then search vs ps av (mid + 1) high (mid, Some ?start)
       else (mid, Some ?start))"
    using lh
    by (subst search.simps) (simp add: mid_def [symmetric] Let_def g1 g2 del: search.simps)
  consider (left) "av < ?start" | (right) "\<not> av < ?start" "?stop \<le> av"
    | (hit) "\<not> av < ?start" "\<not> ?stop \<le> av" by blast
  then show ?case
  proof cases
    case left
    have "\<exists>m. search vs ps av low (mid - 1) (mid, Some (?stop - (?stop - ?start)))
            = (m, Some (exact_sum (take (nat m) vs)))
        \<and> low \<le> m \<and> m \<le> mid - 1
        \<and> exact_sum (take (nat m) vs) \<le> av \<and> av < exact_sum (take (nat (m + 1)) vs)"
    proof (rule "1.IH"(2) [OF lh mid_def g1 g2 refl _ len full low _ b1])
      show "av < ?stop - (?stop - ?start)" using left by simp
      show "mid - 1 < int (length vs)" using mid by simp
      show "av < exact_sum (take (nat (mid - 1 + 1)) vs)" using left by simp
    qed
    then show ?thesis using left mid by (auto simp add: unf simp del: search.simps)
  next
    case right
    have "\<exists>m. search vs ps av (mid + 1) high (mid, Some (?stop - (?stop - ?start)))
            = (m, Some (exact_sum (take (nat m) vs)))
        \<and> mid + 1 \<le> m \<and> m \<le> high
        \<and> exact_sum (take (nat m) vs) \<le> av \<and> av < exact_sum (take (nat (m + 1)) vs)"
    proof (rule "1.IH"(3) [OF lh mid_def g1 g2 refl _ _ len full _ high _ b2])
      show "\<not> av < ?stop - (?stop - ?start)" using right by simp
      show "?stop \<le> av" using right by simp
      show "0 \<le> mid + 1" using mid by simp
      show "exact_sum (take (nat (mid + 1)) vs) \<le> av" using right by simp
    qed
    then show ?thesis using right mid by (auto simp add: unf simp del: search.simps)
  next
    case hit
    then show ?thesis using mid by (simp add: unf del: search.simps)
  qed
qed

lemma search_beyond:
  "length ps = length vs \<Longrightarrow>
   \<forall>k < length vs. uint (ps ! k) = exact_sum (take (Suc k) vs) \<Longrightarrow>
   0 \<le> low \<Longrightarrow> low \<le> high \<Longrightarrow> high < int (length vs) \<Longrightarrow>
   exact_sum (take (nat (high + 1)) vs) \<le> av \<Longrightarrow>
   search vs ps av low high r = (high, Some (exact_sum (take (nat high) vs)))"
proof (induction vs ps av low high r rule: search.induct)
  case (1 vs ps av low high r)
  note len = "1.prems"(1) and full = "1.prems"(2) and low = "1.prems"(3)
    and lh = "1.prems"(4) and high = "1.prems"(5) and b = "1.prems"(6)
  define mid where "mid = low + (high - low) div 2"
  have mid: "low \<le> mid" "mid \<le> high" "0 \<le> mid" "mid < int (length vs)"
    using lh low high by (auto simp: mid_def)
  let ?stop = "exact_sum (take (nat (mid + 1)) vs)" and ?start = "exact_sum (take (nat mid) vs)"
  have g1: "ta_get ps mid = Some ?stop" and g2: "ta_get vs mid = Some (?stop - ?start)"
    using search_step_reads [OF len full mid(3,4)] by simp_all
  have "?start \<le> ?stop" using mid by (intro exact_sum_take_mono) simp
  moreover have "?stop \<le> exact_sum (take (nat (high + 1)) vs)"
    using mid by (intro exact_sum_take_mono) simp
  ultimately have ge: "\<not> av < ?start" "?stop \<le> av" using b by simp_all
  have unf: "search vs ps av low high r = search vs ps av (mid + 1) high (mid, Some ?start)"
    using lh ge
    by (subst search.simps) (simp add: mid_def [symmetric] Let_def g1 g2 del: search.simps)
  show ?case
  proof (cases "mid + 1 \<le> high")
    case True
    have "search vs ps av (mid + 1) high (mid, Some (?stop - (?stop - ?start)))
        = (high, Some (exact_sum (take (nat high) vs)))"
    proof (rule "1.IH"(3) [OF lh mid_def g1 g2 refl _ _ len full _ True high b])
      show "\<not> av < ?stop - (?stop - ?start)" using ge by simp
      show "?stop \<le> av" using ge by simp
      show "0 \<le> mid + 1" using mid by simp
    qed
    then show ?thesis by (simp add: unf del: search.simps)
  next
    case False
    then have "mid = high" using mid by simp
    then show ?thesis using False by (subst unf, subst search.simps) simp
  qed
qed

lemma exact_small:
  assumes "exact_sum vs < 4294967296"
  shows "exact_sum (take k vs) mod 4294967296 = exact_sum (take k vs)"
proof -
  have "exact_sum (take k vs) \<le> exact_sum (take (max k (length vs)) vs)"
    by (intro exact_sum_take_mono) simp
  then have "exact_sum (take k vs) < 4294967296" using assms by simp
  then show ?thesis using exact_sum_nonneg [of "take k vs"] by simp
qed

lemma getTotalValue_full:
  assumes w: "wvalid s" and ne: "values_arr s \<noteq> []"
  shows "fst (getTotalValue s) = Some (exact_sum (values_arr s) mod 4294967296)"
    and "wvalid (snd (getTotalValue s))"
    and "values_arr (snd (getTotalValue s)) = values_arr s"
    and "prefixSumValidIndex (snd (getTotalValue s)) = int (length (values_arr s)) - 1"
proof -
  let ?n = "int (length (values_arr s))"
  have n: "0 \<le> ?n - 1" using ne by (simp add: Suc_leI)
  have gt: "getTotalValue s = getAccumulatedValue' (?n - 1) s"
    using ne by (simp add: getTotalValue_def)
  have "nat (?n - 1) = length (values_arr s) - 1" by simp
  then have "Suc (nat (min (?n - 1) (?n - 1))) = length (values_arr s)" using ne by simp
  then show "fst (getTotalValue s) = Some (exact_sum (values_arr s) mod 4294967296)"
    using gav'_result [OF w n ne] by (simp add: gt uint_sum_list)
  show "wvalid (snd (getTotalValue s))" using gav'_wvalid(1) [OF w n] by (simp add: gt)
  show "values_arr (snd (getTotalValue s)) = values_arr s"
    using gav'_wvalid(2) [OF w n] by (simp add: gt)
  show "prefixSumValidIndex (snd (getTotalValue s)) = ?n - 1"
    using gav'_watermark [OF w n] w by (simp add: gt wvalid_def)
qed

lemma getTotalValue_cache:
  assumes w: "wvalid s" and ne: "values_arr s \<noteq> []" and small: "exact_sum (values_arr s) < 4294967296"
  shows "length (prefixSum (snd (getTotalValue s))) = length (values_arr s)"
    and "\<forall>k < length (values_arr s).
          uint (prefixSum (snd (getTotalValue s)) ! k) = exact_sum (take (Suc k) (values_arr s))"
proof -
  let ?s1 = "snd (getTotalValue s)"
  note f = getTotalValue_full [OF w ne]
  have w1: "wvalid ?s1" by (rule f(2))
  show "length (prefixSum ?s1) = length (values_arr s)"
    using w1 f(3) by (simp add: wvalid_def)
  have "\<forall>k < length (values_arr s). prefixSum ?s1 ! k = sum_list (take (Suc k) (values_arr s))"
    using w1 f(3,4) by (simp add: wvalid_def)
  then show "\<forall>k < length (values_arr s).
          uint (prefixSum ?s1 ! k) = exact_sum (take (Suc k) (values_arr s))"
    by (simp add: uint_sum_list exact_small [OF small])
qed

lemma getIndexOf_unfold:
  "fst (getIndexOf p s) =
     (case search (values_arr (snd (getTotalValue s))) (prefixSum (snd (getTotalValue s))) \<lfloor>p\<rfloor> 0
             (int (length (values_arr (snd (getTotalValue s)))) - 1) (0, Some 0) of
        (mid, midStart) \<Rightarrow> \<lparr>index = mid, remainder = map_option (\<lambda>m. \<lfloor>p\<rfloor> - m) midStart\<rparr>)"
  by (simp add: getIndexOf_def Let_def split: prod.split)

lemma getIndexOf_locates:
  assumes w: "wvalid s" and small: "exact_sum (values_arr s) < 4294967296"
    and i: "i < length (values_arr s)"
    and lo: "exact_sum (take i (values_arr s)) \<le> \<lfloor>p\<rfloor>"
    and hi: "\<lfloor>p\<rfloor> < exact_sum (take (Suc i) (values_arr s))"
  shows "fst (getIndexOf p s)
     = \<lparr>index = int i, remainder = Some (\<lfloor>p\<rfloor> - exact_sum (take i (values_arr s)))\<rparr>"
proof -
  let ?vs = "values_arr s" and ?s1 = "snd (getTotalValue s)" and ?av = "\<lfloor>p\<rfloor>"
  have ne: "?vs \<noteq> []" using i by auto
  note f = getTotalValue_full [OF w ne] and c = getTotalValue_cache [OF w ne small]
  have "0 \<le> ?av" using lo exact_sum_nonneg [of "take i ?vs"] by linarith
  then have b1: "exact_sum (take (nat 0) ?vs) \<le> ?av" by (simp add: exact_sum_def)
  have "exact_sum (take (Suc i) ?vs) \<le> exact_sum (take (length ?vs) ?vs)"
    using i by (intro exact_sum_take_mono) simp
  then have b2: "?av < exact_sum (take (nat (int (length ?vs) - 1 + 1)) ?vs)" using hi by simp
  from search_finds [OF c(1) c(2) _ _ b1 b2, of "(0, Some 0)"]
  obtain m where m: "search ?vs (prefixSum ?s1) ?av 0 (int (length ?vs) - 1) (0, Some 0)
        = (m, Some (exact_sum (take (nat m) ?vs)))"
      "0 \<le> m" "m \<le> int (length ?vs) - 1"
      "exact_sum (take (nat m) ?vs) \<le> ?av" "?av < exact_sum (take (nat (m + 1)) ?vs)"
    by auto
  have "nat m = i"
  proof (rule ccontr)
    assume "nat m \<noteq> i"
    then consider "Suc (nat m) \<le> i" | "Suc i \<le> nat m" by linarith
    then show False
    proof cases
      case 1
      from exact_sum_take_mono [OF this, of ?vs] m(2,5) lo show False
        by (simp add: nat_add_distrib)
    next
      case 2
      from exact_sum_take_mono [OF this, of ?vs] m(4) hi show False by simp
    qed
  qed
  then have "m = int i" "nat m = i" using m(2) by auto
  then show ?thesis using m(1) by (simp add: getIndexOf_unfold f(3))
qed

lemma getIndexOf_beyond:
  assumes w: "wvalid s" and small: "exact_sum (values_arr s) < 4294967296"
    and ne: "values_arr s \<noteq> []"
    and ge: "exact_sum (values_arr s) \<le> \<lfloor>p\<rfloor>"
  shows "fst (getIndexOf p s)
     = \<lparr>index = int (length (values_arr s)) - 1,
        remainder = Some (\<lfloor>p\<rfloor> - exact_sum (butlast (values_arr s)))\<rparr>"
proof -
  let ?vs = "values_arr s" and ?s1 = "snd (getTotalValue s)" and ?av = "\<lfloor>p\<rfloor>"
  note f = getTotalValue_full [OF w ne] and c = getTotalValue_cache [OF w ne small]
  have n: "0 \<le> int (length ?vs) - 1" using ne by (simp add: Suc_leI)
  have b: "exact_sum (take (nat (int (length ?vs) - 1 + 1)) ?vs) \<le> ?av" using ge by simp
  have "search ?vs (prefixSum ?s1) ?av 0 (int (length ?vs) - 1) (0, Some 0)
      = (int (length ?vs) - 1, Some (exact_sum (take (nat (int (length ?vs) - 1)) ?vs)))"
    by (rule search_beyond [OF c(1) c(2) _ n _ b]) simp_all
  moreover have "nat (int (length ?vs) - 1) = length ?vs - 1" by linarith
  then have "take (nat (int (length ?vs) - 1)) ?vs = butlast ?vs"
    by (simp only: butlast_conv_take)
  ultimately show ?thesis by (simp add: getIndexOf_unfold f(3))
qed

subsection \<open>Sums below the wrap-around, and the index a position belongs to\<close>

lemma invar_exact_entry:
  assumes "invar s" and "exact_sum (values_arr s) < 4294967296"
    and "0 \<le> i" and "i \<le> prefixSumValidIndex s"
  shows "uint (prefixSum s ! nat i) = exact_sum (take (Suc (nat i)) (values_arr s))"
proof -
  have "nat i \<in> {0 ..< nat (prefixSumValidIndex s + 1)}" using assms(3,4) by simp
  then have "uint (prefixSum s ! nat i)
      = exact_sum (take (Suc (nat i)) (values_arr s)) mod 4294967296"
    using assms(1) unfolding invar_def by blast
  then show ?thesis by (simp add: exact_small [OF assms(2)])
qed

lemma bracket_exists:
  "0 \<le> av \<Longrightarrow> av < exact_sum (take n vs) \<Longrightarrow> n \<le> length vs \<Longrightarrow>
   \<exists>i < n. exact_sum (take i vs) \<le> av \<and> av < exact_sum (take (Suc i) vs)"
proof (induction n)
  case 0
  then show ?case by (simp add: exact_sum_def)
next
  case (Suc n)
  show ?case
  proof (cases "av < exact_sum (take n vs)")
    case True
    with Suc obtain i where "i < n" "exact_sum (take i vs) \<le> av"
      "av < exact_sum (take (Suc i) vs)" by auto
    then show ?thesis using less_Suc_eq by blast
  next
    case False
    then show ?thesis using Suc.prems(2) by (intro exI [of _ n]) simp
  qed
qed

lemma bracket_unique:
  assumes "exact_sum (take i vs) \<le> av" "av < exact_sum (take (Suc i) vs)"
    and "exact_sum (take j vs) \<le> av" "av < exact_sum (take (Suc j) vs)"
  shows "i = j"
proof (rule ccontr)
  assume "i \<noteq> j"
  then consider "Suc i \<le> j" | "Suc j \<le> i" by linarith
  then show False
  proof cases
    case 1
    from exact_sum_take_mono [OF this, of vs] assms show False by simp
  next
    case 2
    from exact_sum_take_mono [OF this, of vs] assms show False by simp
  qed
qed

lemma getTotalValue_cache_mod:
  assumes w: "wvalid s" and ne: "values_arr s \<noteq> []"
  shows "\<forall>k \<in> {0 ..< length (values_arr s)}.
          uint (prefixSum (snd (getTotalValue s)) ! k)
            = exact_sum (take (Suc k) (values_arr s)) mod 4294967296"
proof -
  let ?s1 = "snd (getTotalValue s)"
  note f = getTotalValue_full [OF w ne]
  have "\<forall>k < length (values_arr s). prefixSum ?s1 ! k = sum_list (take (Suc k) (values_arr s))"
    using f(2,3,4) by (simp add: wvalid_def)
  then show ?thesis by (simp add: uint_sum_list)
qed

subsection \<open>Two calls on input outside the documented range\<close>

text \<open>
  With no values at all, \<open>getAccumulatedValue\<close> at a non-negative index reads
  \<open>prefixSum[-1]\<close> and returns \<open>undefined\<close>, where \<open>getTotalValue\<close> returns 0. An
  \<open>insertValues\<close> past the end throws in the second \<open>set\<close>, after the value array has
  been replaced and before the cache is: the arrays are left with different lengths.
\<close>

lemma getAccumulatedValue_empty_undefined:
  "getAccumulatedValue 0 (new_PrefixSumComputer []) = (None, new_PrefixSumComputer [])
   \<and> getTotalValue (new_PrefixSumComputer []) = (Some 0, new_PrefixSumComputer [])"
  by code_simp

lemma insertValues_past_end_throws:
  "insertValues 3 [2, 3] (new_PrefixSumComputer [5, 5])
     = (Inl RangeError,
        \<lparr>values_arr = [5, 5, 0, 0], prefixSum = [0, 0], prefixSumValidIndex = - 1\<rparr>)"
  by code_simp

section \<open>The claims\<close>

text \<open>
  C1. After the constructor and any sequence of calls that complete, mutations and queries
  in any order, \<open>getAccumulatedValue\<close> at an index in range returns the inclusive sum of the
  values up to that index reduced modulo \<open>2^32\<close>, and the sum itself when the sum of all
  values is below \<open>2^32\<close>. The index is one below \<open>2^32\<close>, which \<open>toUint32\<close> leaves as
  it is.
\<close>

theorem getAccumulatedValue_consistent:
  assumes "run ops (new_PrefixSumComputer vs) = Inr s"
    and "0 \<le> i" and "i < int (length (values_arr s))" and "i \<le> 4294967295"
  shows "fst (getAccumulatedValue i s)
           = Some (exact_sum (take (nat i + 1) (values_arr s)) mod 4294967296)
     \<and> (exact_sum (values_arr s) < 4294967296
          \<longrightarrow> fst (getAccumulatedValue i s) = Some (exact_sum (take (nat i + 1) (values_arr s))))"
proof -
  have w: "wvalid s" using run_wvalid [OF wvalid_new assms(1)] .
  have ne: "values_arr s \<noteq> []" using assms(2,3) by auto
  have ti: "toUint32 i = i" using assms(2,4) by (simp add: toUint32_id)
  have m: "min i (int (length (values_arr s)) - 1) = i" using assms(3) by simp
  have "fst (getAccumulatedValue i s) = fst (getAccumulatedValue' i s)"
    using assms(2) by (simp add: getAccumulatedValue_def ti)
  also have "\<dots> = Some (uint (sum_list (take (Suc (nat i)) (values_arr s))))"
    using gav'_result [OF w assms(2) ne] by (simp add: m)
  finally have r: "fst (getAccumulatedValue i s)
      = Some (exact_sum (take (nat i + 1) (values_arr s)) mod 4294967296)"
    by (simp add: uint_sum_list)
  then show ?thesis by (simp add: exact_small)
qed

theorem getAccumulatedValue_consistent_witness:
  "run [InsertValues 1 [2, 3], GetTotalValue, ChangeValue 0 7, GetAccumulatedValue 1,
        RemoveValues 3 1] (new_PrefixSumComputer [5, 5])
     = Inr \<lparr>values_arr = [7, 2, 3], prefixSum = [7, 9, 0], prefixSumValidIndex = 1\<rparr>
   \<and> (0::int) \<le> 2 \<and> (2::int) < int (length [7, 2, 3 :: uint32]) \<and> (2::int) \<le> 4294967295
   \<and> exact_sum [7, 2, 3] < 4294967296
   \<and> fst (getAccumulatedValue 2
        \<lparr>values_arr = [7, 2, 3], prefixSum = [7, 9, 0], prefixSumValidIndex = 1\<rparr>) = Some 12"
proof -
  let ?s = "\<lparr>values_arr = [7, 2, 3], prefixSum = [7, 9, 0], prefixSumValidIndex = 1\<rparr>"
  have h1: "run [InsertValues 1 [2, 3], GetTotalValue, ChangeValue 0 7, GetAccumulatedValue 1,
        RemoveValues 3 1] (new_PrefixSumComputer [5, 5]) = Inr ?s" by code_simp
  have h2: "(0::int) \<le> 2" "(2::int) < int (length (values_arr ?s))" "(2::int) \<le> 4294967295"
    by simp_all
  have h3: "exact_sum (values_arr ?s) < 4294967296" by code_simp
  have e: "exact_sum (take (nat 2 + 1) (values_arr ?s)) = 12" by code_simp
  from getAccumulatedValue_consistent [OF h1 h2] h3 have
    "fst (getAccumulatedValue 2 ?s) = Some (exact_sum (take (nat 2 + 1) (values_arr ?s)))"
    by blast
  then have c: "fst (getAccumulatedValue 2 ?s) = Some 12" unfolding e .
  have h3': "exact_sum [7, 2, 3] < 4294967296" by code_simp
  show ?thesis
    by (intro conjI) (rule h1, simp, simp, simp, rule h3', rule c)
qed

theorem getAccumulatedValue_exact_sum_counterexample:
  "fst (getAccumulatedValue 1 (new_PrefixSumComputer [4294967295, 2])) = Some 1
   \<and> exact_sum (take (nat 1 + 1) (values_arr (new_PrefixSumComputer [4294967295, 2])))
       = 4294967297"
  by code_simp

text \<open>
  C2. In a state that satisfies the invariant and whose values sum to less than \<open>2^32\<close>, for
  every position whose floor is at least 0 and below the result of \<open>getTotalValue\<close> (so there
  is at least one value), \<open>getIndexOf\<close> returns the one index \<open>i\<close> with
  \<open>sum(values[0..i-1]) \<le> floor(position) < sum(values[0..i])\<close>, and the remainder
  \<open>floor(position) - sum(values[0..i-1])\<close>.
\<close>

theorem getIndexOf_in_range:
  assumes "invar s" and "exact_sum (values_arr s) < 4294967296"
    and "fst (getTotalValue s) = Some tot" and "0 \<le> \<lfloor>p\<rfloor>" and "\<lfloor>p\<rfloor> < tot"
  shows "\<exists>i. i < length (values_arr s)
     \<and> exact_sum (take i (values_arr s)) \<le> \<lfloor>p\<rfloor>
     \<and> \<lfloor>p\<rfloor> < exact_sum (take (Suc i) (values_arr s))
     \<and> (\<forall>j. exact_sum (take j (values_arr s)) \<le> \<lfloor>p\<rfloor>
              \<and> \<lfloor>p\<rfloor> < exact_sum (take (Suc j) (values_arr s)) \<longrightarrow> j = i)
     \<and> fst (getIndexOf p s)
         = \<lparr>index = int i, remainder = Some (\<lfloor>p\<rfloor> - exact_sum (take i (values_arr s)))\<rparr>"
proof -
  let ?vs = "values_arr s"
  have w: "wvalid s" using assms(1) by (simp add: invar_wvalid)
  have ne: "?vs \<noteq> []"
  proof
    assume "?vs = []"
    then have "fst (getTotalValue s) = Some 0" by (simp add: getTotalValue_def)
    with assms(3,4,5) show False by simp
  qed
  have "tot = exact_sum ?vs mod 4294967296"
    using getTotalValue_full(1) [OF w ne] assms(3) by simp
  also have "\<dots> = exact_sum (take (length ?vs) ?vs)"
    using exact_small [OF assms(2), of "length ?vs"] by simp
  finally have "\<lfloor>p\<rfloor> < exact_sum (take (length ?vs) ?vs)" using assms(5) by simp
  from bracket_exists [OF assms(4) this] obtain i where
    i: "i < length ?vs" "exact_sum (take i ?vs) \<le> \<lfloor>p\<rfloor>" "\<lfloor>p\<rfloor> < exact_sum (take (Suc i) ?vs)"
    by auto
  have "\<forall>j. exact_sum (take j ?vs) \<le> \<lfloor>p\<rfloor> \<and> \<lfloor>p\<rfloor> < exact_sum (take (Suc j) ?vs) \<longrightarrow> j = i"
    using bracket_unique [OF _ _ i(2,3)] by blast
  with i getIndexOf_locates [OF w assms(2) i] show ?thesis by blast
qed

theorem getIndexOf_in_range_witness:
  "invar (new_PrefixSumComputer [1, 1, 1]) \<and> exact_sum [1, 1, 1] < 4294967296
   \<and> fst (getTotalValue (new_PrefixSumComputer [1, 1, 1])) = Some 3
   \<and> 0 \<le> \<lfloor>5 / 2 :: real\<rfloor> \<and> \<lfloor>5 / 2 :: real\<rfloor> < 3
   \<and> fst (getIndexOf (5 / 2) (new_PrefixSumComputer [1, 1, 1]))
       = \<lparr>index = 2, remainder = Some 0\<rparr>"
proof -
  let ?s = "new_PrefixSumComputer [1, 1, 1]"
  have v: "values_arr ?s = [1, 1, 1]" by (simp add: new_PrefixSumComputer_def)
  have h1: "invar ?s" by code_simp
  have h2: "exact_sum (values_arr ?s) < 4294967296" by code_simp
  have h3: "fst (getTotalValue ?s) = Some 3" by code_simp
  have h4: "0 \<le> \<lfloor>5 / 2 :: real\<rfloor>" and h5: "\<lfloor>5 / 2 :: real\<rfloor> < 3" by simp_all
  from getIndexOf_in_range [OF h1 h2 h3 h4 h5] obtain i where
    i: "i < length (values_arr ?s)" "exact_sum (take i (values_arr ?s)) \<le> \<lfloor>5 / 2 :: real\<rfloor>"
      "\<lfloor>5 / 2 :: real\<rfloor> < exact_sum (take (Suc i) (values_arr ?s))"
      "fst (getIndexOf (5 / 2) ?s)
         = \<lparr>index = int i,
            remainder = Some (\<lfloor>5 / 2 :: real\<rfloor> - exact_sum (take i (values_arr ?s)))\<rparr>"
    by blast
  have f: "\<lfloor>5 / 2 :: real\<rfloor> = 2" by simp
  have "i < 3" using i(1) by (simp add: v)
  then consider "i = 0" | "i = 1" | "i = 2" by linarith
  then have "i = 2"
  proof cases
    case 1
    with i(3) show ?thesis by (simp add: v f exact_sum_def)
  next
    case 2
    with i(3) show ?thesis by (simp add: v f exact_sum_def)
  next
    case 3
    then show ?thesis .
  qed
  then have c: "fst (getIndexOf (5 / 2) ?s) = \<lparr>index = 2, remainder = Some 0\<rparr>"
    using i(4) by (simp add: v f exact_sum_def)
  have h2': "exact_sum [1, 1, 1] < 4294967296" by code_simp
  show ?thesis
    by (intro conjI) (rule h1, rule h2', rule h3, rule h4, rule h5, rule c)
qed

theorem getIndexOf_wrapped_sums_counterexample:
  "fst (getTotalValue (new_PrefixSumComputer [2147483648, 2147483648, 5])) = Some 5
   \<and> fst (getIndexOf 3 (new_PrefixSumComputer [2147483648, 2147483648, 5]))
       = \<lparr>index = 2, remainder = Some 3\<rparr>
   \<and> \<not> exact_sum (take 2 [2147483648, 2147483648, 5]) \<le> \<lfloor>3 :: real\<rfloor>
   \<and> exact_sum (take 0 [2147483648, 2147483648, 5]) \<le> \<lfloor>3 :: real\<rfloor>
   \<and> \<lfloor>3 :: real\<rfloor> < exact_sum (take 1 [2147483648, 2147483648, 5])"
  by code_simp

text \<open>
  C3. The state invariant: the value array and the cache have the same length, the valid
  index lies between \<open>-1\<close> and the last index (so it is \<open>-1\<close> when there are no values), and
  every cache entry up to the valid index is the inclusive sum of the values up to there,
  reduced modulo \<open>2^32\<close>; when the sum of all values is below \<open>2^32\<close> the entry is that sum
  itself. The constructor establishes the invariant and every call that completes
  (\<open>insertValues\<close>, \<open>changeValue\<close>, \<open>removeValues\<close>, \<open>getTotalValue\<close>,
  \<open>getAccumulatedValue\<close>, \<open>getIndexOf\<close>) preserves it.
\<close>

theorem invariant_preserved:
  "invar (new_PrefixSumComputer vs)
   \<and> (invar s \<and> exec op s = Inr s' \<longrightarrow> invar s')
   \<and> (invar s \<and> exact_sum (values_arr s) < 4294967296 \<and> 0 \<le> i \<and> i \<le> prefixSumValidIndex s
        \<longrightarrow> uint (prefixSum s ! nat i) = exact_sum (take (Suc (nat i)) (values_arr s)))"
  using wvalid_new [of vs] exec_wvalid [of s op s'] invar_exact_entry [of s i]
  by (simp add: invar_wvalid)

theorem invariant_preserved_witness:
  "invar \<lparr>values_arr = [5, 5], prefixSum = [5, 10], prefixSumValidIndex = 1\<rparr>
   \<and> exec (InsertValues 1 [2, 3]) \<lparr>values_arr = [5, 5], prefixSum = [5, 10], prefixSumValidIndex = 1\<rparr>
       = Inr \<lparr>values_arr = [5, 2, 3, 5], prefixSum = [5, 0, 0, 0], prefixSumValidIndex = 0\<rparr>
   \<and> invar \<lparr>values_arr = [5, 2, 3, 5], prefixSum = [5, 0, 0, 0], prefixSumValidIndex = 0\<rparr>
   \<and> exact_sum [5, 5] < 4294967296
   \<and> uint ([5, 10 :: uint32] ! nat 1) = exact_sum (take (Suc (nat 1)) [5, 5])"
proof -
  let ?s = "\<lparr>values_arr = [5, 5], prefixSum = [5, 10], prefixSumValidIndex = 1\<rparr>"
  let ?s' = "\<lparr>values_arr = [5, 2, 3, 5], prefixSum = [5, 0, 0, 0], prefixSumValidIndex = 0\<rparr>"
  have h1: "invar ?s" by code_simp
  have h2: "exec (InsertValues 1 [2, 3]) ?s = Inr ?s'" by code_simp
  have h3: "exact_sum (values_arr ?s) < 4294967296" by code_simp
  note t = invariant_preserved [where s = ?s and op = "InsertValues 1 [2, 3]" and s' = ?s'
      and i = 1]
  from t h1 h2 h3 show ?thesis by simp
qed

theorem invariant_exact_sums_counterexample:
  "prefixSumValidIndex (snd (getTotalValue (new_PrefixSumComputer [2147483648, 2147483648]))) = 1
   \<and> uint (prefixSum (snd (getTotalValue (new_PrefixSumComputer [2147483648, 2147483648]))) ! 1)
       \<noteq> exact_sum (take (Suc 1)
             (values_arr (snd (getTotalValue (new_PrefixSumComputer [2147483648, 2147483648])))))"
  by code_simp

text \<open>
  C4. The boundaries of the queries. \<open>getAccumulatedValue(-1)\<close> returns 0 in every state. In
  a state that satisfies the invariant and has at least one value, \<open>getAccumulatedValue\<close> at
  an index that is, after coercion, at or past the end returns what \<open>getTotalValue\<close> returns.
  In such a state whose values sum to less than \<open>2^32\<close>, \<open>getIndexOf\<close> at a position whose
  floor is at least the result of \<open>getTotalValue\<close> returns the last index. With no values at
  all, \<open>getIndexOf\<close> returns index 0 and the floored position as remainder.
\<close>

theorem query_boundaries:
  "getAccumulatedValue (- 1) s = (Some 0, s)
   \<and> (invar s \<and> values_arr s \<noteq> [] \<and> int (length (values_arr s)) \<le> toUint32 i
        \<longrightarrow> fst (getAccumulatedValue i s) = fst (getTotalValue s))
   \<and> (invar s \<and> values_arr s \<noteq> [] \<and> exact_sum (values_arr s) < 4294967296
        \<and> fst (getTotalValue s) = Some tot \<and> tot \<le> \<lfloor>p\<rfloor>
        \<longrightarrow> index (fst (getIndexOf p s)) = int (length (values_arr s)) - 1)
   \<and> (values_arr s = [] \<longrightarrow> fst (getIndexOf p s) = \<lparr>index = 0, remainder = Some \<lfloor>p\<rfloor>\<rparr>)"
proof (intro conjI impI)
  show "getAccumulatedValue (- 1) s = (Some 0, s)" by (simp add: getAccumulatedValue_def)
next
  assume a: "invar s \<and> values_arr s \<noteq> [] \<and> int (length (values_arr s)) \<le> toUint32 i"
  then have w: "wvalid s" and ne: "values_arr s \<noteq> []"
    and ge: "int (length (values_arr s)) \<le> toUint32 i" by (simp_all add: invar_wvalid)
  have i0: "0 \<le> i" using ge ne by (auto simp: toUint32_def split: if_splits)
  have t0: "0 \<le> toUint32 i" by (simp add: toUint32_def)
  have n0: "0 \<le> int (length (values_arr s)) - 1" using ne by (simp add: Suc_leI)
  have "fst (getAccumulatedValue i s) = fst (getAccumulatedValue' (toUint32 i) s)"
    using i0 by (simp add: getAccumulatedValue_def)
  also have "\<dots> = fst (getAccumulatedValue' (int (length (values_arr s)) - 1) s)"
    using gav'_result [OF w t0 ne] gav'_result [OF w n0 ne] ge by (simp add: min_def)
  also have "\<dots> = fst (getTotalValue s)" using ne by (simp add: getTotalValue_def)
  finally show "fst (getAccumulatedValue i s) = fst (getTotalValue s)" .
next
  assume a: "invar s \<and> values_arr s \<noteq> [] \<and> exact_sum (values_arr s) < 4294967296
        \<and> fst (getTotalValue s) = Some tot \<and> tot \<le> \<lfloor>p\<rfloor>"
  then have w: "wvalid s" and ne: "values_arr s \<noteq> []"
    and sm: "exact_sum (values_arr s) < 4294967296"
    and t: "fst (getTotalValue s) = Some tot" and ge: "tot \<le> \<lfloor>p\<rfloor>"
    by (simp_all add: invar_wvalid)
  have "tot = exact_sum (values_arr s) mod 4294967296"
    using getTotalValue_full(1) [OF w ne] t by simp
  also have "\<dots> = exact_sum (values_arr s)"
    using exact_small [OF sm, of "length (values_arr s)"] by simp
  finally have "exact_sum (values_arr s) \<le> \<lfloor>p\<rfloor>" using ge by simp
  from getIndexOf_beyond [OF w sm ne this]
  show "index (fst (getIndexOf p s)) = int (length (values_arr s)) - 1" by simp
next
  assume e: "values_arr s = []"
  then have "snd (getTotalValue s) = s" by (simp add: getTotalValue_def)
  then show "fst (getIndexOf p s) = \<lparr>index = 0, remainder = Some \<lfloor>p\<rfloor>\<rparr>"
    using e by (simp add: getIndexOf_unfold)
qed

theorem query_boundaries_witness:
  "invar (new_PrefixSumComputer [5, 2, 3]) \<and> values_arr (new_PrefixSumComputer [5, 2, 3]) \<noteq> []
   \<and> int (length (values_arr (new_PrefixSumComputer [5, 2, 3]))) \<le> toUint32 7
   \<and> exact_sum (values_arr (new_PrefixSumComputer [5, 2, 3])) < 4294967296
   \<and> fst (getTotalValue (new_PrefixSumComputer [5, 2, 3])) = Some 10 \<and> 10 \<le> \<lfloor>10 :: real\<rfloor>
   \<and> values_arr (new_PrefixSumComputer []) = []
   \<and> fst (getAccumulatedValue 7 (new_PrefixSumComputer [5, 2, 3])) = Some 10
   \<and> index (fst (getIndexOf 10 (new_PrefixSumComputer [5, 2, 3]))) = 2
   \<and> fst (getIndexOf 4 (new_PrefixSumComputer [])) = \<lparr>index = 0, remainder = Some 4\<rparr>"
proof -
  let ?s = "new_PrefixSumComputer [5, 2, 3]" and ?e = "new_PrefixSumComputer []"
  have h1: "invar ?s" by code_simp
  have h2: "values_arr ?s \<noteq> []" by code_simp
  have h3: "int (length (values_arr ?s)) \<le> toUint32 7" by code_simp
  have h4: "exact_sum (values_arr ?s) < 4294967296" by code_simp
  have h5: "fst (getTotalValue ?s) = Some 10" by code_simp
  have h6: "10 \<le> \<lfloor>10 :: real\<rfloor>" by simp
  have h7: "values_arr ?e = []" by code_simp
  have l: "int (length (values_arr ?s)) - 1 = 2" by code_simp
  note t = query_boundaries [where s = ?s and i = 7 and p = 10 and tot = 10]
  note u = query_boundaries [where s = ?e and p = 4]
  have c1: "fst (getAccumulatedValue 7 ?s) = Some 10" using t h1 h2 h3 h5 by simp
  have c2: "index (fst (getIndexOf 10 ?s)) = 2" using t h1 h2 h4 h5 h6 l by simp
  have c3: "fst (getIndexOf 4 ?e) = \<lparr>index = 0, remainder = Some 4\<rparr>" using u h7 by simp
  show ?thesis
    by (intro conjI) (rule h1, rule h2, rule h3, rule h4, rule h5, rule h6, rule h7,
        rule c1, rule c2, rule c3)
qed

theorem getIndexOf_total_wrapped_counterexample:
  "fst (getTotalValue (new_PrefixSumComputer [4294967295, 2])) = Some 1
   \<and> index (fst (getIndexOf 1 (new_PrefixSumComputer [4294967295, 2]))) = 0
   \<and> int (length (values_arr (new_PrefixSumComputer [4294967295, 2]))) - 1 = 1"
  by code_simp

text \<open>
  C5. In a state that satisfies the invariant and whose values sum to less than \<open>2^32\<close>, for
  every index \<open>i\<close> in range with \<open>values[i] > 0\<close>, \<open>getAccumulatedValue(i - 1)\<close> is the sum of
  the values before \<open>i\<close> (0 for \<open>i = 0\<close>), and \<open>getIndexOf\<close> of that sum returns index \<open>i\<close>
  with remainder 0: an index owns the half-open range from the sum before it up to, but not
  including, the sum through it.
\<close>

theorem getIndexOf_roundtrip:
  assumes "invar s" and "exact_sum (values_arr s) < 4294967296"
    and "0 \<le> i" and "i < int (length (values_arr s))" and "i \<le> 4294967295"
    and "values_arr s ! nat i \<noteq> 0"
  shows "fst (getAccumulatedValue (i - 1) s) = Some (exact_sum (take (nat i) (values_arr s)))
     \<and> fst (getIndexOf (of_int (exact_sum (take (nat i) (values_arr s))))
               (snd (getAccumulatedValue (i - 1) s)))
         = \<lparr>index = i, remainder = Some 0\<rparr>"
proof -
  let ?vs = "values_arr s" and ?s' = "snd (getAccumulatedValue (i - 1) s)"
  let ?a = "exact_sum (take (nat i) ?vs)"
  have w: "wvalid s" using assms(1) by (simp add: invar_wvalid)
  have ne: "?vs \<noteq> []" using assms(3,4) by auto
  have r: "fst (getAccumulatedValue (i - 1) s) = Some ?a"
    and w': "wvalid ?s'" and v': "values_arr ?s' = ?vs"
  proof -
    show "fst (getAccumulatedValue (i - 1) s) = Some ?a"
    proof (cases "i = 0")
      case True
      then show ?thesis by (simp add: getAccumulatedValue_def exact_sum_def)
    next
      case False
      then have i1: "0 \<le> i - 1" using assms(3) by simp
      have ti: "toUint32 (i - 1) = i - 1" using i1 assms(5) by (simp add: toUint32_id)
      have m: "Suc (nat (min (i - 1) (int (length ?vs) - 1))) = nat i"
        using i1 assms(4) by simp
      have "fst (getAccumulatedValue (i - 1) s) = fst (getAccumulatedValue' (i - 1) s)"
        using i1 by (simp add: getAccumulatedValue_def ti)
      also have "\<dots> = Some (uint (sum_list (take (nat i) ?vs)))"
        using gav'_result [OF w i1 ne] by (simp only: m)
      finally show ?thesis by (simp add: uint_sum_list exact_small [OF assms(2)])
    qed
    show "wvalid ?s'" using w by (rule getAccumulatedValue_wvalid)
    show "values_arr ?s' = ?vs"
      using gav'_wvalid(2) [OF w, of "toUint32 (i - 1)"]
      by (simp add: getAccumulatedValue_def toUint32_range)
  qed
  have n: "nat i < length ?vs" using assms(3,4) by simp
  have "uint (?vs ! nat i) \<noteq> 0" using assms(6) by (simp only: uint_0_iff) simp
  then have pos: "0 < uint (?vs ! nat i)" using uint_nonnegative [of "?vs ! nat i"] by linarith
  have fl: "\<lfloor>(of_int ?a) :: real\<rfloor> = ?a" by simp
  have lo: "exact_sum (take (nat i) (values_arr ?s')) \<le> \<lfloor>(of_int ?a) :: real\<rfloor>"
    by (simp add: v')
  have hi: "\<lfloor>(of_int ?a) :: real\<rfloor> < exact_sum (take (Suc (nat i)) (values_arr ?s'))"
    using pos n by (simp add: v' exact_sum_take_Suc)
  have sm: "exact_sum (values_arr ?s') < 4294967296" using assms(2) by (simp add: v')
  have n': "nat i < length (values_arr ?s')" using n by (simp add: v')
  from getIndexOf_locates [OF w' sm n' lo hi]
  have "fst (getIndexOf (of_int ?a) ?s') = \<lparr>index = i, remainder = Some 0\<rparr>"
    using assms(3) by (simp add: v')
  with r show ?thesis by simp
qed

theorem getIndexOf_roundtrip_witness:
  "invar (new_PrefixSumComputer [5, 2, 0, 3]) \<and> exact_sum [5, 2, 0, 3] < 4294967296
   \<and> (0::int) \<le> 3 \<and> (3::int) < int (length [5, 2, 0, 3 :: uint32]) \<and> (3::int) \<le> 4294967295
   \<and> [5, 2, 0, 3 :: uint32] ! nat 3 \<noteq> 0
   \<and> fst (getAccumulatedValue (3 - 1) (new_PrefixSumComputer [5, 2, 0, 3])) = Some 7
   \<and> fst (getIndexOf 7 (snd (getAccumulatedValue (3 - 1) (new_PrefixSumComputer [5, 2, 0, 3]))))
       = \<lparr>index = 3, remainder = Some 0\<rparr>"
proof -
  let ?s = "new_PrefixSumComputer [5, 2, 0, 3]"
  have v: "values_arr ?s = [5, 2, 0, 3]" by (simp add: new_PrefixSumComputer_def)
  have h1: "invar ?s" by code_simp
  have h2: "exact_sum (values_arr ?s) < 4294967296" by code_simp
  have h3: "(0::int) \<le> 3" "(3::int) < int (length (values_arr ?s))" "(3::int) \<le> 4294967295"
    by (simp_all add: v)
  have h4: "values_arr ?s ! nat 3 \<noteq> 0" by (simp add: v)
  have e: "exact_sum (take (nat 3) (values_arr ?s)) = 7" by code_simp
  note t = getIndexOf_roundtrip [OF h1 h2 h3 h4, unfolded e]
  have c1: "fst (getAccumulatedValue (3 - 1) ?s) = Some 7" using t by simp
  have c2: "fst (getIndexOf 7 (snd (getAccumulatedValue (3 - 1) ?s)))
      = \<lparr>index = 3, remainder = Some 0\<rparr>" using t by simp
  have h2': "exact_sum [5, 2, 0, 3] < 4294967296" by code_simp
  show ?thesis
    by (intro conjI) (rule h1, rule h2', simp, simp, simp, simp, rule c1, rule c2)
qed

theorem getIndexOf_of_sum_through_counterexample:
  "values_arr (new_PrefixSumComputer [1, 1, 1]) ! 0 \<noteq> 0
   \<and> fst (getAccumulatedValue 0 (new_PrefixSumComputer [1, 1, 1])) = Some 1
   \<and> fst (getIndexOf 1 (snd (getAccumulatedValue 0 (new_PrefixSumComputer [1, 1, 1]))))
       = \<lparr>index = 1, remainder = Some 0\<rparr>
   \<and> fst (getIndexOf 1 (snd (getAccumulatedValue 0 (new_PrefixSumComputer [1, 1, 1]))))
       \<noteq> \<lparr>index = 0, remainder = Some 0\<rparr>"
  by code_simp

text \<open>
  C6. \<open>removeValues\<close> clamps the count to what is left from the start index on. When the
  clamped count is 0 (the requested count is 0, or the start index is at or past the end) it
  returns \<open>false\<close> and changes nothing: values, cache and valid index stay as they are.
  Otherwise it returns \<open>true\<close> and the values are the old ones without the run
  \<open>[startIndex, startIndex + count)\<close>. Both arguments are read after their coercion by
  \<open>toUint32\<close>. This holds in every state, and the method never throws.
\<close>

theorem removeValues_semantics:
  "case removeValues startIndex cnt s of
     (r, s') \<Rightarrow>
       let n = int (length (values_arr s));
           si = toUint32 startIndex;
           c = min (toUint32 cnt) (max 0 (n - si))
       in (c = 0) = (toUint32 cnt = 0 \<or> n \<le> si)
          \<and> (if c = 0 then r = Inr False \<and> s' = s
              else r = Inr True
                 \<and> values_arr s' = take (nat si) (values_arr s) @ drop (nat (si + c)) (values_arr s))"
proof (cases "int (length (values_arr s)) \<le> toUint32 startIndex \<or> toUint32 cnt = 0")
  case True
  have "0 \<le> toUint32 cnt" by (simp add: toUint32_def)
  then show ?thesis using True removeValues_noop [OF True]
    by (auto simp add: Let_def min_def max_def)
next
  case False
  then have st: "toUint32 startIndex < int (length (values_arr s))" and c: "toUint32 cnt \<noteq> 0"
    by simp_all
  have c0: "0 \<le> toUint32 cnt" "0 \<le> toUint32 startIndex" by (simp_all add: toUint32_def)
  have m: "max 0 (int (length (values_arr s)) - toUint32 startIndex)
      = int (length (values_arr s)) - toUint32 startIndex" using st by simp
  have nz: "min (toUint32 cnt) (int (length (values_arr s)) - toUint32 startIndex) \<noteq> 0"
    using st c by (simp add: min_def)
  have ge: "0 \<le> min (toUint32 cnt) (int (length (values_arr s)) - toUint32 startIndex)"
    using st c0 by simp
  show ?thesis using st c nz c0 ge
    by (simp add: removeValues_result [OF st c] Let_def m nat_add_distrib)
qed

theorem removeValues_semantics_witness:
  "removeValues 1 2 (new_PrefixSumComputer [5, 2, 3, 5])
     = (Inr True, new_PrefixSumComputer [5, 5])
   \<and> removeValues 1 0 (new_PrefixSumComputer [5, 2, 3, 5])
     = (Inr False, new_PrefixSumComputer [5, 2, 3, 5])
   \<and> removeValues 4 1 (new_PrefixSumComputer [5, 2, 3, 5])
     = (Inr False, new_PrefixSumComputer [5, 2, 3, 5])
   \<and> fst (removeValues 2 9 (new_PrefixSumComputer [5, 2, 3, 5])) = Inr True
   \<and> values_arr (snd (removeValues 2 9 (new_PrefixSumComputer [5, 2, 3, 5]))) = [5, 2]"
  using removeValues_semantics
    [where startIndex = 2 and cnt = 9 and s = "new_PrefixSumComputer [5, 2, 3, 5]"]
  by code_simp

text \<open>
  C7. What the mutators do to the valid index. \<open>insertValues\<close> with at least one value to
  insert and an insert index that is, after coercion, at most the number of values leaves it
  at \<open>min(old, insertIndex - 1)\<close>; with nothing to insert it returns \<open>false\<close> and leaves the
  state, valid index included, as it is. \<open>changeValue\<close>, when the value read at the index is
  not the new value, leaves it at \<open>min(old, index - 1)\<close>. \<open>removeValues\<close>, when it returns
  \<open>true\<close>, leaves it at \<open>min(old, startIndex - 1)\<close>. No call of the three ever raises it.
\<close>

theorem mutators_lower_watermark:
  "(ws \<noteq> [] \<and> toUint32 i \<le> int (length (values_arr s))
      \<longrightarrow> prefixSumValidIndex (snd (insertValues i ws s))
            = min (prefixSumValidIndex s) (toUint32 i - 1))
   \<and> insertValues i [] s = (Inr False, s)
   \<and> (ta_get (values_arr s) (toUint32 i) \<noteq> Some (toUint32 v)
      \<longrightarrow> prefixSumValidIndex (snd (changeValue i v s))
            = min (prefixSumValidIndex s) (toUint32 i - 1))
   \<and> (fst (removeValues i c s) = Inr True
      \<longrightarrow> prefixSumValidIndex (snd (removeValues i c s))
            = min (prefixSumValidIndex s) (toUint32 i - 1))
   \<and> prefixSumValidIndex (snd (insertValues i ws s)) \<le> prefixSumValidIndex s
   \<and> prefixSumValidIndex (snd (changeValue i v s)) \<le> prefixSumValidIndex s
   \<and> prefixSumValidIndex (snd (removeValues i c s)) \<le> prefixSumValidIndex s"
proof (intro conjI impI)
  assume "ws \<noteq> [] \<and> toUint32 i \<le> int (length (values_arr s))"
  then show "prefixSumValidIndex (snd (insertValues i ws s))
      = min (prefixSumValidIndex s) (toUint32 i - 1)"
    by (simp add: insertValues_result)
next
  show "insertValues i [] s = (Inr False, s)" by (rule insertValues_empty)
next
  assume "ta_get (values_arr s) (toUint32 i) \<noteq> Some (toUint32 v)"
  then show "prefixSumValidIndex (snd (changeValue i v s))
      = min (prefixSumValidIndex s) (toUint32 i - 1)"
    by (simp add: changeValue_differs)
next
  assume r: "fst (removeValues i c s) = Inr True"
  have "\<not> (int (length (values_arr s)) \<le> toUint32 i \<or> toUint32 c = 0)"
    using r removeValues_noop [of s i c] by auto
  then show "prefixSumValidIndex (snd (removeValues i c s))
      = min (prefixSumValidIndex s) (toUint32 i - 1)"
    by (simp add: removeValues_result)
next
  show "prefixSumValidIndex (snd (insertValues i ws s)) \<le> prefixSumValidIndex s"
  proof (cases "ws = []")
    case True
    then show ?thesis by (simp add: insertValues_empty)
  next
    case False
    then show ?thesis
      by (cases "toUint32 i \<le> int (length (values_arr s))")
         (simp_all add: insertValues_result insertValues_throws)
  qed
next
  show "prefixSumValidIndex (snd (changeValue i v s)) \<le> prefixSumValidIndex s"
    by (cases "ta_get (values_arr s) (toUint32 i) = Some (toUint32 v)")
       (simp_all add: changeValue_same changeValue_differs)
next
  show "prefixSumValidIndex (snd (removeValues i c s)) \<le> prefixSumValidIndex s"
    by (cases "int (length (values_arr s)) \<le> toUint32 i \<or> toUint32 c = 0")
       (simp_all add: removeValues_noop removeValues_result)
qed

theorem mutators_lower_watermark_witness:
  "[9 :: uint32] \<noteq> []
   \<and> toUint32 1 \<le> int (length (values_arr \<lparr>values_arr = [1, 2, 3], prefixSum = [1, 3, 6],
                                              prefixSumValidIndex = 2\<rparr>))
   \<and> ta_get (values_arr \<lparr>values_arr = [1, 2, 3], prefixSum = [1, 3, 6],
                         prefixSumValidIndex = 2\<rparr>) (toUint32 1) \<noteq> Some (toUint32 8)
   \<and> fst (removeValues 1 1 \<lparr>values_arr = [1, 2, 3], prefixSum = [1, 3, 6],
                             prefixSumValidIndex = 2\<rparr>) = Inr True
   \<and> prefixSumValidIndex (snd (insertValues 1 [9] \<lparr>values_arr = [1, 2, 3],
         prefixSum = [1, 3, 6], prefixSumValidIndex = 2\<rparr>)) = 0
   \<and> prefixSumValidIndex (snd (changeValue 1 8 \<lparr>values_arr = [1, 2, 3],
         prefixSum = [1, 3, 6], prefixSumValidIndex = 2\<rparr>)) = 0
   \<and> prefixSumValidIndex (snd (removeValues 1 1 \<lparr>values_arr = [1, 2, 3],
         prefixSum = [1, 3, 6], prefixSumValidIndex = 2\<rparr>)) = 0"
proof -
  let ?s = "\<lparr>values_arr = [1, 2, 3], prefixSum = [1, 3, 6], prefixSumValidIndex = 2\<rparr>"
  have h1: "[9 :: uint32] \<noteq> []" by simp
  have h2: "toUint32 1 \<le> int (length (values_arr ?s))" by code_simp
  have h3: "ta_get (values_arr ?s) (toUint32 1) \<noteq> Some (toUint32 8)" by code_simp
  have h4: "fst (removeValues 1 1 ?s) = Inr True" by code_simp
  have m: "min (prefixSumValidIndex ?s) (toUint32 1 - 1) = 0" by code_simp
  note t = mutators_lower_watermark [where s = ?s and i = 1 and ws = "[9]" and v = 8
      and c = 1, unfolded m]
  have c1: "prefixSumValidIndex (snd (insertValues 1 [9] ?s)) = 0" using t h1 h2 by blast
  have c2: "prefixSumValidIndex (snd (changeValue 1 8 ?s)) = 0" using t h3 by blast
  have c3: "prefixSumValidIndex (snd (removeValues 1 1 ?s)) = 0" using t h4 by blast
  show ?thesis
    by (intro conjI) (rule h1, rule h2, rule h3, rule h4, rule c1, rule c2, rule c3)
qed

theorem insertValues_nothing_counterexample:
  "prefixSumValidIndex (snd (insertValues 0 []
       \<lparr>values_arr = [1, 2, 3], prefixSum = [1, 3, 6], prefixSumValidIndex = 2\<rparr>)) = 2
   \<and> min (prefixSumValidIndex
            \<lparr>values_arr = [1, 2, 3], prefixSum = [1, 3, 6], prefixSumValidIndex = 2\<rparr>)
          (toUint32 0 - 1) = - 1
   \<and> getTotalValue (new_PrefixSumComputer [1, 2, 3])
       = (Some 6, \<lparr>values_arr = [1, 2, 3], prefixSum = [1, 3, 6], prefixSumValidIndex = 2\<rparr>)"
  by code_simp

text \<open>
  C8. Replacing the value at an index in range by the value it already has returns
  \<open>false\<close> and leaves values, cache and valid index unchanged; replacing it by any other
  unsigned 32-bit value returns \<open>true\<close>. The index is one that \<open>toUint32\<close> leaves as it
  is, that is, one below \<open>2^32\<close>.
\<close>

theorem changeValue_idempotent:
  assumes "0 \<le> i" and "i < int (length (values_arr s))" and "i \<le> 4294967295"
  shows "changeValue i (uint (values_arr s ! nat i)) s = (False, s)
     \<and> (\<forall>v. 0 \<le> v \<and> v \<le> 4294967295 \<and> v \<noteq> uint (values_arr s ! nat i)
            \<longrightarrow> fst (changeValue i v s) = True)"
proof -
  have ti: "toUint32 i = i" using assms by (simp add: toUint32_id)
  have g: "ta_get (values_arr s) i = Some (uint (values_arr s ! nat i))"
    using assms by (simp add: ta_get_def)
  have u: "toUint32 (uint (values_arr s ! nat i)) = uint (values_arr s ! nat i)"
    using uint_bounded [of "values_arr s ! nat i"] by (simp add: toUint32_def)
  have "changeValue i (uint (values_arr s ! nat i)) s = (False, s)"
    by (rule changeValue_same) (simp add: ti g u)
  moreover have "fst (changeValue i v s) = True"
    if "0 \<le> v \<and> v \<le> 4294967295 \<and> v \<noteq> uint (values_arr s ! nat i)" for v
  proof -
    have "toUint32 v = v" using that by (simp add: toUint32_id)
    then have "ta_get (values_arr s) (toUint32 i) \<noteq> Some (toUint32 v)"
      using that by (simp add: ti g)
    from changeValue_differs [OF this] show ?thesis by simp
  qed
  ultimately show ?thesis by blast
qed

theorem changeValue_idempotent_witness:
  "(0::int) \<le> 0 \<and> (0::int) < int (length (values_arr (new_PrefixSumComputer [10])))
   \<and> (0::int) \<le> 4294967295
   \<and> changeValue 0 10 (new_PrefixSumComputer [10]) = (False, new_PrefixSumComputer [10])
   \<and> fst (changeValue 0 20 (new_PrefixSumComputer [10])) = True"
proof -
  have h: "(0::int) \<le> 0" "(0::int) < int (length (values_arr (new_PrefixSumComputer [10])))"
    "(0::int) \<le> 4294967295"
    by (simp_all add: new_PrefixSumComputer_def)
  have v: "uint (values_arr (new_PrefixSumComputer [10]) ! nat 0) = 10"
    by (simp add: new_PrefixSumComputer_def)
  note t = changeValue_idempotent [OF h, unfolded v]
  from t [THEN conjunct1] t [THEN conjunct2, THEN spec, of 20] show ?thesis using h by simp
qed

text \<open>
  C9. The numeric domain. \<open>toUint32\<close> yields a number between 0 and \<open>2^32 - 1\<close>;
  \<open>changeValue\<close> stores the coerced value; \<open>getIndexOf\<close> depends on its position only
  through the floor. Sums are stored in a \<open>Uint32Array\<close> and are therefore reduced modulo
  \<open>2^32\<close>: in a state that satisfies the invariant and has at least one value,
  \<open>getTotalValue\<close> returns the sum of all values modulo \<open>2^32\<close> and leaves every cache entry
  equal to the sum of the values up to its index modulo \<open>2^32\<close>. These are the exact sums
  when the sum of all values is below \<open>2^32\<close>.
\<close>

theorem numeric_domain:
  "0 \<le> toUint32 v \<and> toUint32 v \<le> 4294967295
   \<and> (toUint32 i < int (length (values_arr s))
        \<longrightarrow> ta_get (values_arr (snd (changeValue i v s))) (toUint32 i) = Some (toUint32 v))
   \<and> getIndexOf p s = getIndexOf (of_int \<lfloor>p\<rfloor>) s
   \<and> (invar s \<and> values_arr s \<noteq> []
        \<longrightarrow> fst (getTotalValue s) = Some (exact_sum (values_arr s) mod 4294967296)
          \<and> (\<forall>k \<in> {0 ..< length (values_arr s)}.
                uint (prefixSum (snd (getTotalValue s)) ! k)
                  = exact_sum (take (Suc k) (values_arr s)) mod 4294967296))
   \<and> (invar s \<and> values_arr s \<noteq> [] \<and> exact_sum (values_arr s) < 4294967296
        \<longrightarrow> fst (getTotalValue s) = Some (exact_sum (values_arr s))
          \<and> (\<forall>k \<in> {0 ..< length (values_arr s)}.
                uint (prefixSum (snd (getTotalValue s)) ! k)
                  = exact_sum (take (Suc k) (values_arr s))))"
proof (intro conjI impI)
  show "0 \<le> toUint32 v" and "toUint32 v \<le> 4294967295" by (simp_all add: toUint32_def)
next
  assume a: "toUint32 i < int (length (values_arr s))"
  have r: "0 \<le> toUint32 i" "0 \<le> toUint32 v" "toUint32 v \<le> 4294967295"
    by (simp_all add: toUint32_def)
  have u: "uint (word_of_int (toUint32 v) :: uint32) = toUint32 v"
    using r by (simp add: uint_word_of_int)
  show "ta_get (values_arr (snd (changeValue i v s))) (toUint32 i) = Some (toUint32 v)"
  proof (cases "ta_get (values_arr s) (toUint32 i) = Some (toUint32 v)")
    case True
    then show ?thesis by (simp add: changeValue_same)
  next
    case False
    then show ?thesis using a r u by (simp add: changeValue_differs ta_get_def ta_put_def)
  qed
next
  show "getIndexOf p s = getIndexOf (of_int \<lfloor>p\<rfloor>) s" by (simp add: getIndexOf_def)
next
  assume a: "invar s \<and> values_arr s \<noteq> []"
  then show "fst (getTotalValue s) = Some (exact_sum (values_arr s) mod 4294967296)"
    by (simp add: invar_wvalid getTotalValue_full(1))
  from a show "\<forall>k \<in> {0 ..< length (values_arr s)}.
      uint (prefixSum (snd (getTotalValue s)) ! k)
        = exact_sum (take (Suc k) (values_arr s)) mod 4294967296"
    by (simp add: invar_wvalid getTotalValue_cache_mod)
next
  assume a: "invar s \<and> values_arr s \<noteq> [] \<and> exact_sum (values_arr s) < 4294967296"
  then have w: "wvalid s" and ne: "values_arr s \<noteq> []"
    and sm: "exact_sum (values_arr s) < 4294967296" by (simp_all add: invar_wvalid)
  show "fst (getTotalValue s) = Some (exact_sum (values_arr s))"
    using getTotalValue_full(1) [OF w ne] exact_small [OF sm, of "length (values_arr s)"]
    by simp
  show "\<forall>k \<in> {0 ..< length (values_arr s)}.
      uint (prefixSum (snd (getTotalValue s)) ! k) = exact_sum (take (Suc k) (values_arr s))"
    using getTotalValue_cache(2) [OF w ne sm] by simp
qed

theorem numeric_domain_witness:
  "toUint32 1 < int (length (values_arr (new_PrefixSumComputer [4294967295, 3, 1])))
   \<and> invar (new_PrefixSumComputer [4294967295, 3, 1])
   \<and> values_arr (new_PrefixSumComputer [4294967295, 3, 1]) \<noteq> []
   \<and> invar (new_PrefixSumComputer [5, 2]) \<and> values_arr (new_PrefixSumComputer [5, 2]) \<noteq> []
   \<and> exact_sum (values_arr (new_PrefixSumComputer [5, 2])) < 4294967296
   \<and> (1::nat) \<in> {0 ..< length (values_arr (new_PrefixSumComputer [4294967295, 3, 1]))}
   \<and> (1::nat) \<in> {0 ..< length (values_arr (new_PrefixSumComputer [5, 2]))}
   \<and> ta_get (values_arr (snd (changeValue 1 (- 4) (new_PrefixSumComputer [4294967295, 3, 1]))))
         (toUint32 1) = Some 0
   \<and> fst (getTotalValue (new_PrefixSumComputer [4294967295, 3, 1])) = Some 3
   \<and> uint (prefixSum (snd (getTotalValue (new_PrefixSumComputer [4294967295, 3, 1]))) ! 1) = 2
   \<and> fst (getTotalValue (new_PrefixSumComputer [5, 2])) = Some 7
   \<and> uint (prefixSum (snd (getTotalValue (new_PrefixSumComputer [5, 2]))) ! 1) = 7"
proof -
  let ?s = "new_PrefixSumComputer [4294967295, 3, 1]" and ?t = "new_PrefixSumComputer [5, 2]"
  have h1: "toUint32 1 < int (length (values_arr ?s))" by code_simp
  have h2: "invar ?s" by code_simp
  have h3: "values_arr ?s \<noteq> []" by code_simp
  have h4: "invar ?t" by code_simp
  have h5: "values_arr ?t \<noteq> []" by code_simp
  have h6: "exact_sum (values_arr ?t) < 4294967296" by code_simp
  have h7: "(1::nat) \<in> {0 ..< length (values_arr ?s)}" by code_simp
  have h8: "(1::nat) \<in> {0 ..< length (values_arr ?t)}" by code_simp
  have e1: "toUint32 (- 4) = 0" by code_simp
  have e2: "exact_sum (values_arr ?s) mod 4294967296 = 3" by code_simp
  have e3: "exact_sum (take (Suc 1) (values_arr ?s)) mod 4294967296 = 2" by code_simp
  have e4: "exact_sum (values_arr ?t) = 7" by code_simp
  have e5: "exact_sum (take (Suc 1) (values_arr ?t)) = 7" by code_simp
  note a = numeric_domain [where s = ?s and i = 1 and v = "- 4"]
  note b = numeric_domain [where s = ?t]
  have c1: "ta_get (values_arr (snd (changeValue 1 (- 4) ?s))) (toUint32 1) = Some 0"
    using a h1 e1 by simp
  have c2: "fst (getTotalValue ?s) = Some 3" using a h2 h3 e2 by simp
  have "\<forall>k \<in> {0 ..< length (values_arr ?s)}.
      uint (prefixSum (snd (getTotalValue ?s)) ! k)
        = exact_sum (take (Suc k) (values_arr ?s)) mod 4294967296" using a h2 h3 by blast
  then have c3: "uint (prefixSum (snd (getTotalValue ?s)) ! 1) = 2" using h7 e3 by metis
  have c4: "fst (getTotalValue ?t) = Some 7" using b h4 h5 h6 e4 by simp
  have "\<forall>k \<in> {0 ..< length (values_arr ?t)}.
      uint (prefixSum (snd (getTotalValue ?t)) ! k)
        = exact_sum (take (Suc k) (values_arr ?t))" using b h4 h5 h6 by blast
  then have c5: "uint (prefixSum (snd (getTotalValue ?t)) ! 1) = 7" using h8 e5 by metis
  show ?thesis
    by (intro conjI) (rule h1, rule h2, rule h3, rule h4, rule h5, rule h6, rule h7, rule h8,
        rule c1, rule c2, rule c3, rule c4, rule c5)
qed

theorem sums_wrap_counterexample:
  "getTotalValue (new_PrefixSumComputer [4294967295, 1])
     = (Some 0, \<lparr>values_arr = [4294967295, 1], prefixSum = [4294967295, 0],
                  prefixSumValidIndex = 1\<rparr>)
   \<and> exact_sum [4294967295, 1] = 4294967296"
  by code_simp

text \<open>
  C10. In a state that satisfies the invariant, \<open>changeValue\<close> at an index that is, after
  coercion, at or past the end returns \<open>true\<close> for every value, and yet values, cache and
  valid index are all unchanged: the read yields \<open>undefined\<close>, which is not \<open>===\<close> to any
  number, the store is ignored, and \<open>index - 1\<close> is not below the valid index.
\<close>

theorem changeValue_out_of_range:
  assumes "invar s" and "int (length (values_arr s)) \<le> toUint32 i"
  shows "changeValue i v s = (True, s)"
proof -
  have g: "ta_get (values_arr s) (toUint32 i) \<noteq> Some (toUint32 v)"
    using assms(2) by (simp add: ta_get_def)
  have "prefixSumValidIndex s \<le> int (length (values_arr s)) - 1"
    using assms(1) by (simp add: invar_def)
  then have "min (prefixSumValidIndex s) (toUint32 i - 1) = prefixSumValidIndex s"
    using assms(2) by simp
  moreover have "ta_put (values_arr s) (toUint32 i) (Some (toUint32 v)) = values_arr s"
    using assms(2) by (simp add: ta_put_def)
  ultimately show ?thesis by (simp add: changeValue_differs [OF g])
qed

theorem changeValue_out_of_range_witness:
  "invar (snd (getTotalValue (new_PrefixSumComputer [1, 2])))
   \<and> int (length (values_arr (snd (getTotalValue (new_PrefixSumComputer [1, 2]))))) \<le> toUint32 2
   \<and> changeValue 2 7 (snd (getTotalValue (new_PrefixSumComputer [1, 2])))
       = (True, \<lparr>values_arr = [1, 2], prefixSum = [1, 3], prefixSumValidIndex = 1\<rparr>)"
proof -
  have h1: "invar (snd (getTotalValue (new_PrefixSumComputer [1, 2])))" by code_simp
  have h2: "int (length (values_arr (snd (getTotalValue (new_PrefixSumComputer [1, 2])))))
      \<le> toUint32 2" by code_simp
  have e: "snd (getTotalValue (new_PrefixSumComputer [1, 2]))
      = \<lparr>values_arr = [1, 2], prefixSum = [1, 3], prefixSumValidIndex = 1\<rparr>" by code_simp
  from changeValue_out_of_range [OF h1 h2, of 7] show ?thesis using h1 h2 by (simp add: e)
qed

end
